theory Spec2Isabelle
  imports Complex_Main "HOL-Library.Char_ord" "HOL-Library.List_Lexorder" "HOL-Library.Multiset"
begin

section \<open>Cities API: data model\<close>

text \<open>
  The program is one module, \<^verbatim>\<open>main.py\<close>: a loader \<^verbatim>\<open>load_cities\<close> (memoised by
  \<^verbatim>\<open>lru_cache\<close>) and one request handler \<^verbatim>\<open>get_cities\<close>, wrapped by a rate limiter.

  A city is the dictionary built at line 71, with exactly the keys
  \<^verbatim>\<open>name, lat, lng, tz, pop, loc\<close>. Python floats are read as the real numbers they
  denote (finite floats; \<^verbatim>\<open>nan\<close> and the infinities are outside the model), Python's
  unbounded \<^verbatim>\<open>int\<close> is \<^typ>\<open>int\<close>, \<^verbatim>\<open>str\<close> is \<^typ>\<open>string\<close>, a character being a
  code point below 256.
\<close>

record city =
  name :: string
  lat :: real
  lng :: real
  tz :: string
  pop :: int
  loc :: string

text \<open>The exceptions the module's own statements can raise.\<close>

datatype py_error =
    IndexError
  | ValueError string
  | TypeError

text \<open>
  Library functions the module calls but does not define. They are parameters of the
  model: \<^verbatim>\<open>rapidfuzz.fuzz.partial_ratio\<close> (a score, compared with 70),
  \<^verbatim>\<open>str.lower\<close>, and the builtin conversions \<^verbatim>\<open>float\<close> and \<^verbatim>\<open>int\<close>, which
  return \<open>None\<close> where Python raises \<^verbatim>\<open>ValueError\<close>.
\<close>

record py_env =
  partial_ratio :: "string \<Rightarrow> string \<Rightarrow> real"
  lower :: "string \<Rightarrow> string"
  py_float :: "string \<Rightarrow> real option"
  py_int :: "string \<Rightarrow> int option"

fun bind_err :: "'e + 'a \<Rightarrow> ('a \<Rightarrow> 'e + 'b) \<Rightarrow> 'e + 'b" where
  "bind_err (Inl e) f = Inl e"
| "bind_err (Inr v) f = f v"

section \<open>The dataset loader\<close>

text \<open>
  \<^verbatim>\<open>row[i]\<close> on a list: an index below zero counts from the end, and an index outside
  the list raises \<^verbatim>\<open>IndexError\<close>.
\<close>

definition subscript :: "'a list \<Rightarrow> int \<Rightarrow> py_error + 'a" where
  "subscript row i =
     (if 0 \<le> i then (if i < int (length row) then Inr (row ! nat i) else Inl IndexError)
      else if 0 \<le> i + int (length row) then Inr (row ! nat (i + int (length row)))
      else Inl IndexError)"

text \<open>
  \<^verbatim>\<open>float(s)\<close> and \<^verbatim>\<open>int(s)\<close>: the \<^verbatim>\<open>ValueError\<close> they raise quotes the string
  that did not convert (\<^verbatim>\<open>could not convert string to float: 'x'\<close>,
  \<^verbatim>\<open>invalid literal for int() with base 10: 'x'\<close>) and nothing else.
\<close>

definition to_float :: "py_env \<Rightarrow> string \<Rightarrow> py_error + real" where
  "to_float E s = (case py_float E s of None \<Rightarrow> Inl (ValueError s) | Some x \<Rightarrow> Inr x)"

definition to_int :: "py_env \<Rightarrow> string \<Rightarrow> py_error + int" where
  "to_int E s = (case py_int E s of None \<Rightarrow> Inl (ValueError s) | Some n \<Rightarrow> Inr n)"

text \<open>
  The body of the loop, lines 65 to 71, statement by statement and in the source's order,
  so that the first statement that raises decides the error.
\<close>

definition city_of_row :: "py_env \<Rightarrow> string list \<Rightarrow> py_error + city" where
  "city_of_row E row =
     bind_err (subscript row 1) (\<lambda>name'.
     bind_err (subscript row 4) (\<lambda>s4. bind_err (to_float E s4) (\<lambda>lat'.
     bind_err (subscript row 5) (\<lambda>s5. bind_err (to_float E s5) (\<lambda>lng'.
     bind_err (subscript row (- 2)) (\<lambda>tz'.
     bind_err (subscript row 14) (\<lambda>s14.
     bind_err (if s14 \<noteq> [] then to_int E s14 else Inr 0) (\<lambda>pop'.
     bind_err (subscript row 8) (\<lambda>loc'.
       Inr \<lparr>name = name', lat = lat', lng = lng', tz = tz', pop = pop', loc = loc'\<rparr>)))))))))"

text \<open>
  \<^verbatim>\<open>for row in reader: ... records.append(...)\<close>. The argument \<open>rows\<close> is what
  \<^verbatim>\<open>csv.reader(fin, delimiter="\t")\<close> yields for the file: one list of column strings
  per record.
\<close>

fun load_rows :: "py_env \<Rightarrow> string list list \<Rightarrow> city list \<Rightarrow> py_error + city list" where
  "load_rows E [] records = Inr records"
| "load_rows E (row # rows) records =
     (case city_of_row E row of
        Inl e \<Rightarrow> Inl e
      | Inr c \<Rightarrow> load_rows E rows (records @ [c]))"

definition load_cities :: "py_env \<Rightarrow> string list list \<Rightarrow> py_error + city list" where
  "load_cities E rows = load_rows E rows []"

text \<open>
  \<^verbatim>\<open>@lru_cache()\<close> on a function of no arguments: the state is the cached result, if
  any. A call that raises stores nothing. \<open>file_reads\<close> counts the executions of
  \<^verbatim>\<open>open(in_path, ...)\<close> at line 62, the loader's only effect outside the cache.
\<close>

record app_state =
  cache :: "city list option"
  file_reads :: nat

definition load_cities_cached ::
  "py_env \<Rightarrow> string list list \<Rightarrow> app_state \<Rightarrow> (py_error + city list) \<times> app_state" where
  "load_cities_cached E rows st =
     (case cache st of
        Some records \<Rightarrow> (Inr records, st)
      | None \<Rightarrow>
          (case load_cities E rows of
             Inl e \<Rightarrow> (Inl e, st\<lparr>file_reads := Suc (file_reads st)\<rparr>)
           | Inr records \<Rightarrow>
               (Inr records, st\<lparr>cache := Some records, file_reads := Suc (file_reads st)\<rparr>)))"

section \<open>The fuzzy matcher and the filters\<close>

text \<open>
  The condition of the comprehension at line 142:
  \<^verbatim>\<open>fuzz.partial_ratio(q.lower(), c["name"].lower()) >= 70\<close>.
\<close>

definition matches :: "py_env \<Rightarrow> string \<Rightarrow> string \<Rightarrow> bool" where
  "matches E q nm = (70 \<le> partial_ratio E (lower E q) (lower E nm))"

text \<open>The comprehension of lines 140 to 143: the fuzzy name filter.\<close>

definition fuzzy_filter :: "py_env \<Rightarrow> string \<Rightarrow> city list \<Rightarrow> city list" where
  "fuzzy_filter E q data = [c \<leftarrow> data. matches E q (name c)]"

text \<open>
  \<^verbatim>\<open>if q:\<close> and \<^verbatim>\<open>if tz:\<close> test Python truthiness of an \<^verbatim>\<open>Optional[str]\<close>:
  false for \<^verbatim>\<open>None\<close> and for the empty string.
\<close>

definition truthy :: "string option \<Rightarrow> bool" where
  "truthy s = (case s of None \<Rightarrow> False | Some v \<Rightarrow> v \<noteq> [])"

definition filter_q :: "py_env \<Rightarrow> string option \<Rightarrow> city list \<Rightarrow> city list" where
  "filter_q E q data =
     (case q of
        None \<Rightarrow> data
      | Some v \<Rightarrow> if v \<noteq> [] then fuzzy_filter E v data else data)"

definition filter_tz :: "string option \<Rightarrow> city list \<Rightarrow> city list" where
  "filter_tz tz' data =
     (case tz' of
        None \<Rightarrow> data
      | Some v \<Rightarrow> if v \<noteq> [] then [c \<leftarrow> data. tz c = v] else data)"

text \<open>\<^verbatim>\<open>if min_pop is not None\<close>: a supplied \<open>0\<close> filters too.\<close>

definition filter_min_pop :: "int option \<Rightarrow> city list \<Rightarrow> city list" where
  "filter_min_pop min_pop data =
     (case min_pop of
        None \<Rightarrow> data
      | Some m \<Rightarrow> [c \<leftarrow> data. m \<le> pop c])"

text \<open>Lines 139 to 147: the three filters in sequence.\<close>

definition apply_filters ::
  "py_env \<Rightarrow> string option \<Rightarrow> string option \<Rightarrow> int option \<Rightarrow> city list \<Rightarrow> city list" where
  "apply_filters E q tz' min_pop data = filter_min_pop min_pop (filter_tz tz' (filter_q E q data))"

section \<open>Sorting\<close>

text \<open>
  \<^verbatim>\<open>c.get(sort)\<close>: the value stored under the key, \<^verbatim>\<open>None\<close> for a key the dictionary
  does not have.
\<close>

datatype py_value = PyStr string | PyFloat real | PyInt int | PyNone

definition city_get :: "city \<Rightarrow> string \<Rightarrow> py_value" where
  "city_get c k =
     (if k = ''name'' then PyStr (name c)
      else if k = ''lat'' then PyFloat (lat c)
      else if k = ''lng'' then PyFloat (lng c)
      else if k = ''tz'' then PyStr (tz c)
      else if k = ''pop'' then PyInt (pop c)
      else if k = ''loc'' then PyStr (loc c)
      else PyNone)"

text \<open>
  Python's \<^verbatim>\<open><\<close> on the values a key can have: strings compare lexicographically by
  code point, numbers by value, and \<^verbatim>\<open>None\<close> (or a string against a number) raises
  \<^verbatim>\<open>TypeError\<close>.
\<close>

fun py_lt :: "py_value \<Rightarrow> py_value \<Rightarrow> py_error + bool" where
  "py_lt (PyStr a) (PyStr b) = Inr (a < b)"
| "py_lt (PyFloat a) (PyFloat b) = Inr (a < b)"
| "py_lt (PyInt a) (PyInt b) = Inr (a < b)"
| "py_lt (PyInt a) (PyFloat b) = Inr (of_int a < b)"
| "py_lt (PyFloat a) (PyInt b) = Inr (a < of_int b)"
| "py_lt _ _ = Inl TypeError"

text \<open>
  \<^verbatim>\<open>sorted(data, key=..., reverse=...)\<close> is the builtin: a stable sort that compares
  keys with \<^verbatim>\<open><\<close> only and raises what a comparison raises. It is modelled as the
  stable insertion sort over \<open>py_lt\<close>; any list of two or more elements needs a
  comparison. With \<^verbatim>\<open>reverse=True\<close> the builtin reverses the list, sorts it and
  reverses the result, which keeps elements with equal keys in their original order.
\<close>

fun insort_py :: "('a \<Rightarrow> py_value) \<Rightarrow> 'a \<Rightarrow> 'a list \<Rightarrow> py_error + 'a list" where
  "insort_py key x [] = Inr [x]"
| "insort_py key x (y # ys) =
     (case py_lt (key y) (key x) of
        Inl e \<Rightarrow> Inl e
      | Inr lt \<Rightarrow>
          if lt then (case insort_py key x ys of Inl e \<Rightarrow> Inl e | Inr zs \<Rightarrow> Inr (y # zs))
          else Inr (x # y # ys))"

fun sort_py :: "('a \<Rightarrow> py_value) \<Rightarrow> 'a list \<Rightarrow> py_error + 'a list" where
  "sort_py key [] = Inr []"
| "sort_py key (x # xs) =
     (case sort_py key xs of Inl e \<Rightarrow> Inl e | Inr ys \<Rightarrow> insort_py key x ys)"

definition sorted_py :: "('a \<Rightarrow> py_value) \<Rightarrow> bool \<Rightarrow> 'a list \<Rightarrow> py_error + 'a list" where
  "sorted_py key reverse xs =
     (if reverse then (case sort_py key (rev xs) of Inl e \<Rightarrow> Inl e | Inr ys \<Rightarrow> Inr (rev ys))
      else sort_py key xs)"

text \<open>Lines 148 to 150. \<^verbatim>\<open>if sort:\<close> is truthiness again.\<close>

definition sort_step :: "string option \<Rightarrow> string \<Rightarrow> city list \<Rightarrow> py_error + city list" where
  "sort_step sort' order' data =
     (case sort' of
        None \<Rightarrow> Inr data
      | Some k \<Rightarrow>
          if k \<noteq> [] then sorted_py (\<lambda>c. city_get c k) (order' = ''desc'') data
          else Inr data)"

section \<open>Pagination\<close>

text \<open>
  \<^verbatim>\<open>data[offset: offset + limit]\<close>. A slice bound below zero has the length added to
  it; then each bound is clamped to \<open>0 .. len\<close>; the slice is empty when the stop is not
  after the start. Slicing never raises.
\<close>

definition slice_bound :: "nat \<Rightarrow> int \<Rightarrow> nat" where
  "slice_bound n i =
     (if i < 0 then (if i + int n < 0 then 0 else nat (i + int n))
      else if int n < i then n else nat i)"

definition py_slice :: "'a list \<Rightarrow> int \<Rightarrow> int \<Rightarrow> 'a list" where
  "py_slice xs start stop =
     take (slice_bound (length xs) stop - slice_bound (length xs) start)
       (drop (slice_bound (length xs) start) xs)"

definition paginate :: "'a list \<Rightarrow> int \<Rightarrow> int \<Rightarrow> 'a list" where
  "paginate data offset limit = py_slice data offset (offset + limit)"

text \<open>
  The specification's reading of the page, for comparison with \<open>paginate\<close>: the
  positions \<open>lo \<le> i < hi\<close>, clamped to the positions the sequence has.
\<close>

definition clamped_range :: "'a list \<Rightarrow> int \<Rightarrow> int \<Rightarrow> 'a list" where
  "clamped_range xs lo hi =
     take (nat (min hi (int (length xs))) - nat (max lo 0)) (drop (nat (max lo 0)) xs)"

definition spec_page :: "'a list \<Rightarrow> int \<Rightarrow> int \<Rightarrow> 'a list" where
  "spec_page xs offset limit = clamped_range xs offset (offset + limit)"

text \<open>What Python does to a negative slice bound before clamping: count from the end.\<close>

definition from_end :: "nat \<Rightarrow> int \<Rightarrow> int" where
  "from_end n i = (if i < 0 then i + int n else i)"

section \<open>The request handler\<close>

text \<open>
  What the client gets: the page (status 200), the \<^verbatim>\<open>HTTPException\<close> the handler
  raises, an exception nothing handles (the framework answers 500), or the
  \<^verbatim>\<open>Response\<close> built by the handler registered at line 56.
\<close>

datatype response =
    Page "city list"
  | HTTPException nat string
  | Uncaught py_error
  | Response string nat

fun status_code :: "response \<Rightarrow> nat" where
  "status_code (Page cs) = 200"
| "status_code (HTTPException code detail) = code"
| "status_code (Uncaught e) = 500"
| "status_code (Response body code) = code"

text \<open>Lines 139 to 154: what the handler does with the loaded data.\<close>

definition query ::
  "py_env \<Rightarrow> city list \<Rightarrow> string option \<Rightarrow> string option \<Rightarrow> int option \<Rightarrow> int \<Rightarrow> int \<Rightarrow>
     string option \<Rightarrow> string \<Rightarrow> py_error + city list" where
  "query E data q tz' min_pop limit offset sort' order' =
     bind_err (sort_step sort' order' (apply_filters E q tz' min_pop data))
       (\<lambda>sorted_data. Inr (paginate sorted_data offset limit))"

text \<open>The body of \<^verbatim>\<open>get_cities\<close>, lines 131 to 154.\<close>

definition get_cities ::
  "py_env \<Rightarrow> string list list \<Rightarrow> app_state \<Rightarrow> string option \<Rightarrow> string option \<Rightarrow> int option \<Rightarrow>
     int \<Rightarrow> int \<Rightarrow> string option \<Rightarrow> string \<Rightarrow> response \<times> app_state" where
  "get_cities E rows st q tz' min_pop limit offset sort' order' =
     (if \<not> truthy q \<and> \<not> truthy tz' \<and> min_pop = None
      then (HTTPException 400 ''Please provide at least one filter: q, tz, or min_pop'', st)
      else
        (case load_cities_cached E rows st of
           (Inl e, st') \<Rightarrow> (Uncaught e, st')
         | (Inr data, st') \<Rightarrow>
             (case query E data q tz' min_pop limit offset sort' order' of
                Inl e \<Rightarrow> (Uncaught e, st')
              | Inr paged \<Rightarrow> (Page paged, st'))))"

section \<open>Well-formed rows\<close>

text \<open>
  A row the loop body converts without raising: it has the fifteen columns the body
  indexes, columns 4 and 5 convert with \<^verbatim>\<open>float\<close>, and column 14 is empty or
  converts with \<^verbatim>\<open>int\<close>.
\<close>

definition well_formed :: "py_env \<Rightarrow> string list \<Rightarrow> bool" where
  "well_formed E row =
     (15 \<le> length row \<and> py_float E (row ! 4) \<noteq> None \<and> py_float E (row ! 5) \<noteq> None \<and>
      (row ! 14 = [] \<or> py_int E (row ! 14) \<noteq> None))"

text \<open>
  The first numeric column of a row that is there and does not convert, in the order the
  loop body converts them: latitude, longitude, then a non-empty population.
\<close>

definition bad_field :: "py_env \<Rightarrow> string list \<Rightarrow> string option" where
  "bad_field E row =
     (if 4 < length row \<and> py_float E (row ! 4) = None then Some (row ! 4)
      else if 5 < length row \<and> py_float E (row ! 5) = None then Some (row ! 5)
      else if 14 < length row \<and> row ! 14 \<noteq> [] \<and> py_int E (row ! 14) = None
        then Some (row ! 14)
      else None)"

section \<open>Sample data\<close>

text \<open>
  A small environment and a few rows in the GeoNames layout, for evaluating the model:
  a score that is 100 when the first string occurs in the second and 0 otherwise,
  lower-casing of the ASCII letters, and conversions defined on the numerals the sample
  rows contain.
\<close>

fun occurs_in :: "string \<Rightarrow> string \<Rightarrow> bool" where
  "occurs_in a [] = (a = [])"
| "occurs_in a (b # bs) = (take (length a) (b # bs) = a \<or> occurs_in a bs)"

definition ascii_lower :: "char \<Rightarrow> char" where
  "ascii_lower c =
     (if 65 \<le> (of_char c :: nat) \<and> (of_char c :: nat) \<le> 90 then char_of (of_char c + 32 :: nat) else c)"

definition sample_float :: "string \<Rightarrow> real option" where
  "sample_float s =
     (if s = ''51.5'' then Some 51.5
      else if s = ''-0.125'' then Some (- 0.125)
      else if s = ''40.75'' then Some 40.75
      else if s = ''-74.0'' then Some (- 74)
      else None)"

definition sample_int :: "string \<Rightarrow> int option" where
  "sample_int s =
     (if s = ''7556900'' then Some 7556900
      else if s = ''8175133'' then Some 8175133
      else None)"

definition sample_env :: py_env where
  "sample_env =
     \<lparr>partial_ratio = (\<lambda>a b. if occurs_in a b then 100 else 0),
      lower = map ascii_lower,
      py_float = sample_float,
      py_int = sample_int\<rparr>"

definition london_row :: "string list" where
  "london_row =
     [''2643743'', ''London'', ''London'', ''Londres'', ''51.5'', ''-0.125'', ''P'', ''PPLC'',
      ''GB'', '''', ''ENG'', ''GLA'', '''', '''', ''7556900'', '''', ''25'', ''Europe/London'',
      ''2022-03-09'']"

definition new_york_row :: "string list" where
  "new_york_row =
     [''5128581'', ''New York'', ''New York'', ''NYC'', ''40.75'', ''-74.0'', ''P'', ''PPL'',
      ''US'', '''', ''NY'', '''', '''', '''', ''8175133'', ''10'', ''57'', ''America/New_York'',
      ''2022-03-09'']"

definition hamlet_row :: "string list" where
  "hamlet_row =
     [''1'', ''Hamlet'', ''Hamlet'', '''', ''51.5'', ''-0.125'', ''P'', ''PPL'',
      ''GB'', '''', '''', '''', '''', '''', '''', '''', ''3'', ''Europe/London'',
      ''2022-03-09'']"

definition broken_row :: "string list" where
  "broken_row =
     [''2'', ''Atlantis'', ''Atlantis'', '''', ''abc'', ''-0.125'', ''P'', ''PPL'',
      ''GB'', '''', '''', '''', '''', '''', ''7556900'', '''', ''3'', ''Europe/London'',
      ''2022-03-09'']"

definition other_broken_row :: "string list" where
  "other_broken_row =
     [''3'', ''Lemuria'', ''Lemuria'', '''', ''51.5'', ''abc'', ''P'', ''PPL'',
      ''GB'', '''', '''', '''', '''', '''', ''7556900'', '''', ''3'', ''Europe/London'',
      ''2022-03-09'']"

definition london :: city where
  "london = \<lparr>name = ''London'', lat = 51.5, lng = - 0.125, tz = ''Europe/London'',
      pop = 7556900, loc = ''GB''\<rparr>"

definition new_york :: city where
  "new_york = \<lparr>name = ''New York'', lat = 40.75, lng = - 74, tz = ''America/New_York'',
      pop = 8175133, loc = ''US''\<rparr>"

definition fresh :: app_state where
  "fresh = \<lparr>cache = None, file_reads = 0\<rparr>"


section \<open>Letter case\<close>










section \<open>A partial-ratio scorer\<close>










section \<open>The rate limiter\<close>

text \<open>
  Modelled from the spec: the rate limiter's admission check. The module only configures
  the limiter (line 38: the client key is the remote address; line 92: the limit string
  \<^verbatim>\<open>10/minute\<close>; line 56: the response to a rejection); the check itself belongs to the
  \<^verbatim>\<open>slowapi\<close> package and is not in the repository. The specification, section 4.4:
  \<^verbatim>\<open>admit(clientKey) -> allowed\<close>, a fixed quota of 10 admitted requests per client key
  per rolling 1-minute window; section 3: the state per client key is the request
  timestamps within the active window, created lazily on the first request of a key and
  expired when the window rolls over. The clock is an input: \<open>now\<close>, in seconds.
\<close>

type_synonym limiter_state = "string \<Rightarrow> real list"

definition quota :: nat where
  "quota = 10"

definition window :: real where
  "window = 60"

definition admit :: "limiter_state \<Rightarrow> string \<Rightarrow> real \<Rightarrow> bool \<times> limiter_state" where
  "admit L key now =
     (let recent = [t \<leftarrow> L key. now - t < window]
      in if length recent < quota then (True, L(key := now # recent))
         else (False, L(key := recent)))"

definition no_history :: limiter_state where
  "no_history = (\<lambda>key. [])"

text \<open>A sequence of admission checks, each a client key and the time of the check.\<close>

fun checks :: "limiter_state \<Rightarrow> (string \<times> real) list \<Rightarrow> bool list \<times> limiter_state" where
  "checks L [] = ([], L)"
| "checks L (c # cs) =
     (case admit L (fst c) (snd c) of
        (ok, L') \<Rightarrow> (case checks L' cs of (oks, L'') \<Rightarrow> (ok # oks, L'')))"

text \<open>The checks of one key, and the times of the checks of one key that were admitted.\<close>

definition checks_of :: "string \<Rightarrow> (string \<times> real) list \<Rightarrow> (string \<times> real) list" where
  "checks_of key cs = [c \<leftarrow> cs. fst c = key]"

definition decisions_of :: "string \<Rightarrow> (string \<times> real) list \<Rightarrow> bool list \<Rightarrow> bool list" where
  "decisions_of key cs oks = map snd [p \<leftarrow> zip cs oks. fst (fst p) = key]"

definition admitted_times :: "string \<Rightarrow> (string \<times> real) list \<Rightarrow> bool list \<Rightarrow> real list" where
  "admitted_times key cs oks = map (snd \<circ> fst) [p \<leftarrow> zip cs oks. fst (fst p) = key \<and> snd p]"

text \<open>
  The endpoint as the client sees it: the decorator of line 92 runs the admission check
  for the client's key before the handler body, and the handler registered at line 56
  turns a rejection into \<^verbatim>\<open>Response("Too Many Requests", status_code=429)\<close>.
\<close>

definition cities_endpoint ::
  "py_env \<Rightarrow> string list list \<Rightarrow> limiter_state \<Rightarrow> app_state \<Rightarrow> string \<Rightarrow> real \<Rightarrow>
     string option \<Rightarrow> string option \<Rightarrow> int option \<Rightarrow> int \<Rightarrow> int \<Rightarrow> string option \<Rightarrow> string \<Rightarrow>
     response \<times> limiter_state \<times> app_state" where
  "cities_endpoint E rows L st key now q tz' min_pop limit offset sort' order' =
     (case admit L key now of
        (ok, L') \<Rightarrow>
          if ok
          then (case get_cities E rows st q tz' min_pop limit offset sort' order' of
                  (r, st') \<Rightarrow> (r, L', st'))
          else (Response ''Too Many Requests'' 429, L', st))"

text \<open>
  Sample traffic for the limiter: two client keys, eleven checks of the first within
  eleven seconds with one check of the second in between, and a limiter state in which
  the first client has used up its quota.
\<close>

definition client_a :: string where
  "client_a = ''10.0.0.1''"

definition client_b :: string where
  "client_b = ''10.0.0.2''"

definition burst :: "(string \<times> real) list" where
  "burst =
     [(client_a, 0), (client_a, 1), (client_a, 2), (client_b, 2.5), (client_a, 3),
      (client_a, 4), (client_a, 5), (client_a, 6), (client_a, 7), (client_a, 8),
      (client_a, 9), (client_a, 10)]"

definition exhausted :: limiter_state where
  "exhausted = no_history(client_a := [9, 8, 7, 6, 5, 4, 3, 2, 1, 0])"

section \<open>Properties of the loader\<close>

lemma subscript_nonneg: "0 \<le> i \<Longrightarrow> nat i < length row \<Longrightarrow> subscript row i = Inr (row ! nat i)"
  by (simp add: subscript_def)

lemma subscript_penultimate: "2 \<le> length row \<Longrightarrow> subscript row (- 2) = Inr (row ! (length row - 2))"
  by (simp add: subscript_def nat_diff_distrib' nat_add_distrib)

lemma city_of_row_long:
  assumes "15 \<le> length row"
  shows "city_of_row E row =
     bind_err (to_float E (row ! 4)) (\<lambda>lat'.
     bind_err (to_float E (row ! 5)) (\<lambda>lng'.
     bind_err (if row ! 14 \<noteq> [] then to_int E (row ! 14) else Inr 0) (\<lambda>pop'.
       Inr \<lparr>name = row ! 1, lat = lat', lng = lng', tz = row ! (length row - 2),
            pop = pop', loc = row ! 8\<rparr>)))"
  using assms by (simp add: city_of_row_def subscript_nonneg subscript_penultimate)

lemma city_of_row_well_formed:
  assumes "15 \<le> length row" "py_float E (row ! 4) = Some la" "py_float E (row ! 5) = Some lo"
    "row ! 14 = [] \<or> py_int E (row ! 14) = Some p"
  shows "city_of_row E row =
     Inr \<lparr>name = row ! 1, lat = la, lng = lo, tz = row ! (length row - 2),
          pop = (if row ! 14 = [] then 0 else p), loc = row ! 8\<rparr>"
  using assms by (auto simp: city_of_row_long to_float_def to_int_def)

lemma load_rows_Inr:
  "load_rows E rows acc = Inr cs \<Longrightarrow>
     \<exists>ds. cs = acc @ ds \<and> length ds = length rows \<and>
       (\<forall>i<length rows. city_of_row E (rows ! i) = Inr (ds ! i))"
proof (induction rows arbitrary: acc)
  case Nil
  then show ?case by simp
next
  case (Cons row rows)
  from Cons.prems obtain c where c: "city_of_row E row = Inr c"
    and rest: "load_rows E rows (acc @ [c]) = Inr cs"
    by (auto split: sum.splits)
  from Cons.IH [OF rest] obtain ds where ds: "cs = (acc @ [c]) @ ds" "length ds = length rows"
    "\<forall>i<length rows. city_of_row E (rows ! i) = Inr (ds ! i)" by blast
  have "\<forall>i<length (row # rows). city_of_row E ((row # rows) ! i) = Inr ((c # ds) ! i)"
    using c ds(3) by (auto simp: nth_Cons split: nat.splits)
  with ds show ?case by (intro exI [of _ "c # ds"]) simp
qed

lemma load_rows_first_failure:
  "i < length rows \<Longrightarrow> city_of_row E (rows ! i) = Inl e \<Longrightarrow>
   (\<forall>j<i. \<exists>c. city_of_row E (rows ! j) = Inr c) \<Longrightarrow> load_rows E rows acc = Inl e"
proof (induction rows arbitrary: i acc)
  case Nil
  then show ?case by simp
next
  case (Cons row rows)
  show ?case
  proof (cases i)
    case 0
    with Cons.prems show ?thesis by simp
  next
    case (Suc k)
    from Cons.prems(3) Suc obtain c where c: "city_of_row E row = Inr c" by fastforce
    have "load_rows E rows (acc @ [c]) = Inl e"
    proof (rule Cons.IH)
      show "k < length rows" using Cons.prems(1) Suc by simp
      show "city_of_row E (rows ! k) = Inl e" using Cons.prems(2) Suc by simp
      show "\<forall>j<k. \<exists>c. city_of_row E (rows ! j) = Inr c"
        using Cons.prems(3) Suc by (metis Suc_less_eq nth_Cons_Suc)
    qed
    with c show ?thesis by simp
  qed
qed

lemma load_rows_all_ok:
  "(\<forall>r \<in> set rows. \<exists>c. city_of_row E r = Inr c) \<Longrightarrow> \<exists>cs. load_rows E rows acc = Inr cs"
  by (induction rows arbitrary: acc) auto

lemma well_formed_ok: "well_formed E row \<Longrightarrow> \<exists>c. city_of_row E row = Inr c"
  by (auto simp: well_formed_def city_of_row_long to_float_def to_int_def)

lemma load_cities_well_formed:
  assumes "list_all (well_formed E) rows"
  shows "\<exists>cs. load_cities E rows = Inr cs \<and> length cs = length rows \<and>
           (\<forall>i<length rows. city_of_row E (rows ! i) = Inr (cs ! i))"
proof -
  have "\<forall>r \<in> set rows. \<exists>c. city_of_row E r = Inr c"
    using assms by (auto simp: list_all_iff intro: well_formed_ok)
  then obtain cs where cs: "load_rows E rows [] = Inr cs"
    using load_rows_all_ok by blast
  from load_rows_Inr [OF cs] show ?thesis
    using cs by (auto simp: load_cities_def)
qed

text \<open>
  Claim C6. When every row of the input is well-formed, \<open>load_cities\<close> returns one record
  per row, in the order of the rows, and the record of a row takes its name from column
  1, its latitude from column 4, its longitude from column 5, its location code from
  column 8, its population from column 14 (0 when that column is the empty string) and
  its timezone from the second-to-last column.
\<close>

theorem load_maps_rows_positionally:
  assumes "list_all (well_formed E) rows"
  shows "\<exists>cs. load_cities E rows = Inr cs \<and> length cs = length rows \<and>
           (\<forall>i<length rows.
              name (cs ! i) = rows ! i ! 1 \<and>
              py_float E (rows ! i ! 4) = Some (lat (cs ! i)) \<and>
              py_float E (rows ! i ! 5) = Some (lng (cs ! i)) \<and>
              loc (cs ! i) = rows ! i ! 8 \<and>
              (if rows ! i ! 14 = [] then pop (cs ! i) = 0
               else py_int E (rows ! i ! 14) = Some (pop (cs ! i))) \<and>
              tz (cs ! i) = rows ! i ! (length (rows ! i) - 2))"
proof -
  from load_cities_well_formed [OF assms] obtain cs where
    cs: "load_cities E rows = Inr cs" "length cs = length rows"
    and each: "\<forall>i<length rows. city_of_row E (rows ! i) = Inr (cs ! i)" by blast
  have "name (cs ! i) = rows ! i ! 1 \<and>
        py_float E (rows ! i ! 4) = Some (lat (cs ! i)) \<and>
        py_float E (rows ! i ! 5) = Some (lng (cs ! i)) \<and>
        loc (cs ! i) = rows ! i ! 8 \<and>
        (if rows ! i ! 14 = [] then pop (cs ! i) = 0
         else py_int E (rows ! i ! 14) = Some (pop (cs ! i))) \<and>
        tz (cs ! i) = rows ! i ! (length (rows ! i) - 2)" if i: "i < length rows" for i
  proof -
    let ?row = "rows ! i"
    have wf: "well_formed E ?row" using assms i by (simp add: list_all_length)
    then obtain la lo where f: "py_float E (?row ! 4) = Some la" "py_float E (?row ! 5) = Some lo"
      and len: "15 \<le> length ?row"
      by (auto simp: well_formed_def)
    obtain p where p: "?row ! 14 = [] \<or> py_int E (?row ! 14) = Some p"
      using wf by (auto simp: well_formed_def)
    have "city_of_row E ?row = Inr (cs ! i)" using each i by simp
    with city_of_row_well_formed [OF len f p]
    have "cs ! i = \<lparr>name = ?row ! 1, lat = la, lng = lo, tz = ?row ! (length ?row - 2),
          pop = (if ?row ! 14 = [] then 0 else p), loc = ?row ! 8\<rparr>" by simp
    then show ?thesis using f p by auto
  qed
  with cs show ?thesis by blast
qed

theorem load_maps_rows_positionally_witness:
  "list_all (well_formed sample_env) [london_row, hamlet_row] \<and>
   (\<exists>cs. load_cities sample_env [london_row, hamlet_row] = Inr cs \<and> cs ! 0 = london \<and>
      name (cs ! 1) = ''Hamlet'' \<and> pop (cs ! 1) = 0 \<and> tz (cs ! 1) = ''Europe/London'')"
proof -
  have wf: "list_all (well_formed sample_env) [london_row, hamlet_row]"
    by (simp add: well_formed_def sample_env_def london_row_def hamlet_row_def
        sample_float_def sample_int_def)
  from load_maps_rows_positionally [OF wf] obtain cs where
    cs: "load_cities sample_env [london_row, hamlet_row] = Inr cs" by blast
  moreover have "load_cities sample_env [london_row, hamlet_row] =
      Inr [london, \<lparr>name = ''Hamlet'', lat = 51.5, lng = - 0.125, tz = ''Europe/London'',
        pop = 0, loc = ''GB''\<rparr>]"
    by (simp add: load_cities_def city_of_row_def subscript_def to_float_def to_int_def
        sample_env_def sample_float_def sample_int_def london_row_def hamlet_row_def london_def)
  ultimately show ?thesis using wf by auto
qed

section \<open>Failure of the loader\<close>

lemma load_cities_cached_fails:
  assumes "cache st = None" "load_cities E rows = Inl e"
  shows "load_cities_cached E rows st = (Inl e, st\<lparr>file_reads := Suc (file_reads st)\<rparr>)"
  using assms by (simp add: load_cities_cached_def)

lemma get_cities_loader_fails:
  assumes "cache st = None" "load_cities E rows = Inl e"
    "truthy q \<or> truthy tz' \<or> min_pop \<noteq> None"
  shows "get_cities E rows st q tz' min_pop limit offset sort' order' =
     (Uncaught e, st\<lparr>file_reads := Suc (file_reads st)\<rparr>)"
proof -
  have "\<not> (\<not> truthy q \<and> \<not> truthy tz' \<and> min_pop = None)" using assms(3) by blast
  then show ?thesis
    by (simp only: get_cities_def load_cities_cached_fails [OF assms(1,2)] if_False
        prod.case sum.case)
qed


lemma city_of_row_cases:
  "city_of_row E row =
     (if length row < 5 then Inl IndexError
      else case py_float E (row ! 4) of
        None \<Rightarrow> Inl (ValueError (row ! 4))
      | Some la \<Rightarrow>
          if length row < 6 then Inl IndexError
          else case py_float E (row ! 5) of
            None \<Rightarrow> Inl (ValueError (row ! 5))
          | Some lo \<Rightarrow>
              if length row < 15 then Inl IndexError
              else if row ! 14 \<noteq> [] then
                (case py_int E (row ! 14) of
                   None \<Rightarrow> Inl (ValueError (row ! 14))
                 | Some p \<Rightarrow>
                     Inr \<lparr>name = row ! 1, lat = la, lng = lo, tz = row ! (length row - 2),
                       pop = p, loc = row ! 8\<rparr>)
              else Inr \<lparr>name = row ! 1, lat = la, lng = lo, tz = row ! (length row - 2),
                       pop = 0, loc = row ! 8\<rparr>)"
proof (cases "length row < 5")
  case True
  then show ?thesis by (auto simp: city_of_row_def subscript_def)
next
  case five: False
  then have s1: "subscript row 1 = Inr (row ! 1)" and s4: "subscript row 4 = Inr (row ! 4)"
    by (simp_all add: subscript_def)
  show ?thesis
  proof (cases "py_float E (row ! 4)")
    case None
    with five s1 s4 show ?thesis by (simp add: city_of_row_def to_float_def)
  next
    case la: (Some la)
    show ?thesis
    proof (cases "length row < 6")
      case True
      then have "subscript row 5 = Inl IndexError" by (simp add: subscript_def)
      with five s1 s4 la True show ?thesis by (simp add: city_of_row_def to_float_def)
    next
      case six: False
      then have s5: "subscript row 5 = Inr (row ! 5)" by (simp add: subscript_def)
      have s2: "subscript row (- 2) = Inr (row ! (length row - 2))"
        using six by (intro subscript_penultimate) simp
      show ?thesis
      proof (cases "py_float E (row ! 5)")
        case None
        with five six s1 s4 s5 la show ?thesis by (simp add: city_of_row_def to_float_def)
      next
        case lo: (Some lo)
        show ?thesis
        proof (cases "length row < 15")
          case True
          then have "subscript row 14 = Inl IndexError" by (simp add: subscript_def)
          with five six s1 s4 s5 s2 la lo True show ?thesis
            by (simp add: city_of_row_def to_float_def)
        next
          case False
          then have "subscript row 14 = Inr (row ! 14)" "subscript row 8 = Inr (row ! 8)"
            by (simp_all add: subscript_def)
          with five six s1 s4 s5 s2 la lo False show ?thesis
            by (simp add: city_of_row_def to_float_def to_int_def split: option.splits)
        qed
      qed
    qed
  qed
qed

lemma city_of_row_bad_field:
  assumes "bad_field E row = Some s"
  shows "city_of_row E row = Inl (ValueError s)"
  using assms
  by (simp only: city_of_row_cases bad_field_def)
    (auto split: if_splits option.splits)

lemma city_of_row_no_bad_field:
  assumes "bad_field E row = None" "city_of_row E row = Inl e"
  shows "e = IndexError \<and> length row < 15"
  using assms
  by (simp only: city_of_row_cases bad_field_def)
    (auto split: if_splits option.splits)

lemma first_failing_row:
  assumes "i < length rows" "city_of_row E (rows ! i) = Inl e0"
  shows "\<exists>j e. j \<le> i \<and> city_of_row E (rows ! j) = Inl e \<and>
     (\<forall>k<j. \<exists>c. city_of_row E (rows ! k) = Inr c)"
proof -
  define fails where "fails j \<longleftrightarrow> (\<exists>e. city_of_row E (rows ! j) = Inl e)" for j
  define j where "j = (LEAST j. fails j)"
  have "fails i" using assms(2) by (auto simp: fails_def)
  then have "fails j" and "j \<le> i" unfolding j_def by (rule LeastI, rule Least_le)
  then obtain e where e: "city_of_row E (rows ! j) = Inl e" by (auto simp: fails_def)
  have "\<exists>c. city_of_row E (rows ! k) = Inr c" if "k < j" for k
  proof -
    have "\<not> fails k" using that unfolding j_def by (rule not_less_Least)
    then show ?thesis by (cases "city_of_row E (rows ! k)") (auto simp: fails_def)
  qed
  with \<open>j \<le> i\<close> e show ?thesis by blast
qed


text \<open>
  Claim C7, as amended. When a row of the input has a latitude, longitude or non-empty
  population column that does not convert, the load fails and returns no records. The
  error is the one raised by the first row of the input that does not convert, which is
  that row or an earlier one: the \<^verbatim>\<open>ValueError\<close> carrying the text of that row's first
  numeric column that does not convert (the column, not the record), or, when that row
  has no such column, the \<^verbatim>\<open>IndexError\<close> of a row with fewer than fifteen columns. When
  the offending row is itself the first that does not convert, the error is the
  \<^verbatim>\<open>ValueError\<close> of its first malformed column. A request that reaches the loader with
  an empty cache is answered with that uncaught error after one read of the file, and
  the cache stays empty, so the failure is per request and the next request repeats it.
\<close>

theorem load_fails_on_malformed_number:
  assumes "i < length rows" "bad_field E (rows ! i) = Some s"
  shows "\<exists>j e. j \<le> i \<and> load_cities E rows = Inl e \<and> city_of_row E (rows ! j) = Inl e \<and>
     (\<forall>k<j. \<exists>c. city_of_row E (rows ! k) = Inr c) \<and>
     (case bad_field E (rows ! j) of
        Some s' \<Rightarrow> e = ValueError s'
      | None \<Rightarrow> e = IndexError \<and> length (rows ! j) < 15) \<and>
     (j = i \<longrightarrow> e = ValueError s) \<and>
     (cache st = None \<and> (truthy q \<or> truthy tz' \<or> min_pop \<noteq> None) \<longrightarrow>
        get_cities E rows st q tz' min_pop limit offset sort' order' =
          (Uncaught e, st\<lparr>file_reads := Suc (file_reads st)\<rparr>))"
proof -
  have bad: "city_of_row E (rows ! i) = Inl (ValueError s)"
    using assms(2) by (rule city_of_row_bad_field)
  from first_failing_row [OF assms(1) bad] obtain j e where
    j: "j \<le> i" and e: "city_of_row E (rows ! j) = Inl e"
    and before: "\<forall>k<j. \<exists>c. city_of_row E (rows ! k) = Inr c" by blast
  have jlen: "j < length rows" using j assms(1) by simp
  have load: "load_cities E rows = Inl e"
    unfolding load_cities_def using jlen e before by (rule load_rows_first_failure)
  have kind: "case bad_field E (rows ! j) of
        Some s' \<Rightarrow> e = ValueError s'
      | None \<Rightarrow> e = IndexError \<and> length (rows ! j) < 15"
  proof (cases "bad_field E (rows ! j)")
    case None
    with city_of_row_no_bad_field [OF None e] show ?thesis by simp
  next
    case (Some s')
    with city_of_row_bad_field [OF Some] e show ?thesis by simp
  qed
  have same: "j = i \<longrightarrow> e = ValueError s" using e bad by auto
  have request: "cache st = None \<and> (truthy q \<or> truthy tz' \<or> min_pop \<noteq> None) \<longrightarrow>
        get_cities E rows st q tz' min_pop limit offset sort' order' =
          (Uncaught e, st\<lparr>file_reads := Suc (file_reads st)\<rparr>)"
  proof
    assume a: "cache st = None \<and> (truthy q \<or> truthy tz' \<or> min_pop \<noteq> None)"
    show "get_cities E rows st q tz' min_pop limit offset sort' order' =
        (Uncaught e, st\<lparr>file_reads := Suc (file_reads st)\<rparr>)"
      by (rule get_cities_loader_fails) (use a load in simp_all)
  qed
  from j load e before kind same request show ?thesis by blast
qed

lemma eval_broken: "city_of_row sample_env broken_row = Inl (ValueError ''abc'')"
  by (simp add: city_of_row_def subscript_def to_float_def sample_env_def sample_float_def
      broken_row_def)

lemma eval_other_broken: "city_of_row sample_env other_broken_row = Inl (ValueError ''abc'')"
  by (simp add: city_of_row_def subscript_def to_float_def sample_env_def sample_float_def
      other_broken_row_def)

lemma eval_london: "city_of_row sample_env london_row = Inr london"
  by (simp add: city_of_row_def subscript_def to_float_def to_int_def sample_env_def
      sample_float_def sample_int_def london_row_def london_def)

lemma eval_new_york: "city_of_row sample_env new_york_row = Inr new_york"
  by (simp add: city_of_row_def subscript_def to_float_def to_int_def sample_env_def
      sample_float_def sample_int_def new_york_row_def new_york_def)

lemma rows_differ: "broken_row \<noteq> other_broken_row"
  by (simp add: broken_row_def other_broken_row_def)

lemma load_broken: "load_cities sample_env [broken_row] = Inl (ValueError ''abc'')"
  by (simp add: load_cities_def eval_broken)

lemma load_other_broken:
  "load_cities sample_env [london_row, other_broken_row] = Inl (ValueError ''abc'')"
  by (simp add: load_cities_def eval_london eval_other_broken)


lemma truthy_simps:
  "truthy None = False" "truthy (Some []) = False" "truthy (Some (c # cs)) = True"
  by (simp_all add: truthy_def)

lemma eval_blank: "city_of_row sample_env [] = Inl IndexError"
  by (simp add: city_of_row_def subscript_def)

theorem load_fails_on_malformed_number_witness:
  "(1::nat) < length [london_row, broken_row] \<and>
   bad_field sample_env ([london_row, broken_row] ! 1) = Some ''abc'' \<and>
   load_cities sample_env [london_row, broken_row] = Inl (ValueError ''abc'') \<and>
   get_cities sample_env [london_row, broken_row] fresh None (Some ''Europe/London'') None 50 0
       None ''asc'' = (Uncaught (ValueError ''abc''), \<lparr>cache = None, file_reads = 1\<rparr>) \<and>
   (1::nat) < length [[], broken_row] \<and>
   bad_field sample_env ([[], broken_row] ! 1) = Some ''abc'' \<and>
   load_cities sample_env [[], broken_row] = Inl IndexError"
proof -
  have 1: "(1::nat) < length [london_row, broken_row]" by simp
  have 2: "bad_field sample_env ([london_row, broken_row] ! 1) = Some ''abc''"
    by (simp add: bad_field_def broken_row_def sample_env_def sample_float_def)
  have 3: "cache fresh = None \<and>
      (truthy None \<or> truthy (Some ''Europe/London'') \<or> (None::int option) \<noteq> None)"
    by (simp add: fresh_def truthy_simps)
  from load_fails_on_malformed_number [OF 1 2,
      of fresh None "Some ''Europe/London''" None 50 0 None "''asc''"]
  obtain j e where j: "j \<le> 1"
    and load: "load_cities sample_env [london_row, broken_row] = Inl e"
    and row: "city_of_row sample_env ([london_row, broken_row] ! j) = Inl e"
    and same: "j = 1 \<longrightarrow> e = ValueError ''abc''"
    and request: "cache fresh = None \<and>
      (truthy None \<or> truthy (Some ''Europe/London'') \<or> (None::int option) \<noteq> None) \<longrightarrow>
      get_cities sample_env [london_row, broken_row] fresh None (Some ''Europe/London'') None
        50 0 None ''asc'' = (Uncaught e, fresh\<lparr>file_reads := Suc (file_reads fresh)\<rparr>)"
    by blast
  have "j \<noteq> 0"
  proof
    assume "j = 0"
    with row have "city_of_row sample_env london_row = Inl e" by simp
    then show False by (simp add: eval_london)
  qed
  with j have "j = 1" by simp
  with same have e: "e = ValueError ''abc''" by simp
  from request 3 have "get_cities sample_env [london_row, broken_row] fresh None
      (Some ''Europe/London'') None 50 0 None ''asc'' =
      (Uncaught e, fresh\<lparr>file_reads := Suc (file_reads fresh)\<rparr>)"
    by (rule mp)
  with e have get: "get_cities sample_env [london_row, broken_row] fresh None
      (Some ''Europe/London'') None 50 0 None ''asc'' =
      (Uncaught (ValueError ''abc''), \<lparr>cache = None, file_reads = 1\<rparr>)"
    by (simp add: fresh_def)
  have 4: "(1::nat) < length [[], broken_row]" by simp
  have 5: "bad_field sample_env ([[], broken_row] ! 1) = Some ''abc''"
    by (simp add: bad_field_def broken_row_def sample_env_def sample_float_def)
  from load_fails_on_malformed_number [OF 4 5]
  obtain j' e' where load': "load_cities sample_env [[], broken_row] = Inl e'"
    and row': "city_of_row sample_env ([[], broken_row] ! j') = Inl e'"
    and before': "\<forall>k<j'. \<exists>c. city_of_row sample_env ([[], broken_row] ! k) = Inr c"
    by blast
  have "j' = 0"
  proof (rule ccontr)
    assume "j' \<noteq> 0"
    then have "0 < j'" by simp
    with before' have "\<exists>c. city_of_row sample_env ([[], broken_row] ! 0) = Inr c" by blast
    then show False by (simp add: eval_blank)
  qed
  with row' have "e' = IndexError" by (simp add: eval_blank)
  with load' have blank: "load_cities sample_env [[], broken_row] = Inl IndexError" by simp
  from 1 2 load e get 4 5 blank show ?thesis by simp
qed

text \<open>
  Claim C7 as stated fails. Two inputs whose offending records differ (another city, at
  another position, with another column malformed) fail with the same error value, so
  the error does not name the record; the error is Python's \<^verbatim>\<open>ValueError\<close>; and
  nothing is loaded before a request asks for it: against a malformed file a request
  without filters is answered 400 with the file unread, and every request with a filter
  reads the file and fails anew.
\<close>

theorem parse_error_names_record_counterexample:
  "load_cities sample_env [broken_row] = Inl (ValueError ''abc'') \<and>
   load_cities sample_env [london_row, other_broken_row] = Inl (ValueError ''abc'') \<and>
   broken_row \<noteq> other_broken_row \<and>
   get_cities sample_env [broken_row] fresh None None None 50 0 None ''asc'' =
     (HTTPException 400 ''Please provide at least one filter: q, tz, or min_pop'', fresh) \<and>
   get_cities sample_env [broken_row] fresh None (Some ''Europe/London'') None 50 0 None ''asc'' =
     (Uncaught (ValueError ''abc''), \<lparr>cache = None, file_reads = 1\<rparr>) \<and>
   get_cities sample_env [broken_row] \<lparr>cache = None, file_reads = 1\<rparr> None
       (Some ''Europe/London'') None 50 0 None ''asc'' =
     (Uncaught (ValueError ''abc''), \<lparr>cache = None, file_reads = 2\<rparr>)"
proof -
  have a: "get_cities sample_env [broken_row] fresh None None None 50 0 None ''asc'' =
     (HTTPException 400 ''Please provide at least one filter: q, tz, or min_pop'', fresh)"
    by (simp add: get_cities_def truthy_simps)
  have b: "get_cities sample_env [broken_row] fresh None (Some ''Europe/London'') None 50 0
      None ''asc'' = (Uncaught (ValueError ''abc''), \<lparr>cache = None, file_reads = 1\<rparr>)"
    using get_cities_loader_fails [of fresh sample_env "[broken_row]" "ValueError ''abc''"
        None "Some ''Europe/London''" None 50 0 None "''asc''"]
    by (simp add: load_broken truthy_simps fresh_def)
  have c: "get_cities sample_env [broken_row] \<lparr>cache = None, file_reads = 1\<rparr> None
       (Some ''Europe/London'') None 50 0 None ''asc'' =
     (Uncaught (ValueError ''abc''), \<lparr>cache = None, file_reads = 2\<rparr>)"
    using get_cities_loader_fails [of "\<lparr>cache = None, file_reads = 1\<rparr>" sample_env
        "[broken_row]" "ValueError ''abc''" None "Some ''Europe/London''" None 50 0 None "''asc''"]
    by (simp add: load_broken truthy_simps)
  from load_broken load_other_broken rows_differ a b c show ?thesis by (intro conjI)
qed

section \<open>Case and the fuzzy name filter\<close>




























section \<open>Composition of the filters\<close>

lemma apply_filters_only_q: "apply_filters E q None None data = filter_q E q data"
  by (simp add: apply_filters_def filter_tz_def filter_min_pop_def)

lemma apply_filters_only_tz: "apply_filters E None tz' None data = filter_tz tz' data"
  by (simp add: apply_filters_def filter_q_def filter_min_pop_def)

lemma apply_filters_only_min_pop:
  "apply_filters E None None min_pop data = filter_min_pop min_pop data"
  by (simp add: apply_filters_def filter_q_def filter_tz_def)

text \<open>
  Claim C8. For every dataset and every combination of \<open>q\<close>, \<open>tz\<close> and \<open>min_pop\<close>
  (each supplied or not), the records left by the three filters together are among the
  records left by the name filter alone, by the timezone filter alone, and by the
  population filter alone; indeed they are exactly the records all three keep.
\<close>

theorem filters_together_subset_of_each_alone:
  "set (apply_filters E q tz' min_pop data) \<subseteq> set (apply_filters E q None None data) \<and>
   set (apply_filters E q tz' min_pop data) \<subseteq> set (apply_filters E None tz' None data) \<and>
   set (apply_filters E q tz' min_pop data) \<subseteq> set (apply_filters E None None min_pop data) \<and>
   set (apply_filters E q tz' min_pop data) =
     set (apply_filters E q None None data) \<inter> set (apply_filters E None tz' None data) \<inter>
     set (apply_filters E None None min_pop data)"
proof -
  have eq: "set (apply_filters E q tz' min_pop data) =
     set (filter_q E q data) \<inter> set (filter_tz tz' data) \<inter> set (filter_min_pop min_pop data)"
    by (auto simp: apply_filters_def filter_q_def fuzzy_filter_def filter_tz_def filter_min_pop_def
        split: option.splits)
  then show ?thesis
    by (simp only: apply_filters_only_q apply_filters_only_tz apply_filters_only_min_pop)
      blast
qed

section \<open>Sorting by a field\<close>

lemma insort_py_typed:
  fixes f :: "'a \<Rightarrow> 'k::linorder"
  assumes "\<And>a b. py_lt (key a) (key b) = Inr (f a < f b)"
  shows "insort_py key x ys = Inr (insort_key f x ys)"
  by (induction ys) (auto simp: assms)

lemma sort_py_typed:
  fixes f :: "'a \<Rightarrow> 'k::linorder"
  assumes "\<And>a b. py_lt (key a) (key b) = Inr (f a < f b)"
  shows "sort_py key xs = Inr (sort_key f xs)"
  by (induction xs) (simp_all add: insort_py_typed [of key f, OF assms])

lemma sorted_py_typed:
  fixes f :: "'a \<Rightarrow> 'k::linorder"
  assumes "\<And>a b. py_lt (key a) (key b) = Inr (f a < f b)"
  shows "sorted_py key reverse xs =
     Inr (if reverse then rev (sort_key f (rev xs)) else sort_key f xs)"
  by (simp add: sorted_py_def sort_py_typed [of key f, OF assms])

lemma stable_filter_typed:
  fixes f :: "'a \<Rightarrow> 'k::linorder"
  assumes inj: "\<And>a b. (key a = key b) = (f a = f b)"
  shows "filter (\<lambda>c. key c = v) (sort_key f xs) = filter (\<lambda>c. key c = v) xs"
proof (cases "\<exists>c \<in> set xs. key c = v")
  case True
  then obtain c where "key c = v" by blast
  then have "(\<lambda>c'. key c' = v) = (\<lambda>c'. f c' = f c)" using inj by auto
  then show ?thesis by (simp add: sort_key_stable)
next
  case False
  then have "filter (\<lambda>c. key c = v) xs = []" by (simp add: filter_empty_conv)
  moreover have "filter (\<lambda>c. key c = v) (sort_key f xs) = []"
    using False by (simp add: filter_empty_conv)
  ultimately show ?thesis by simp
qed

lemma sorted_py_properties:
  fixes f :: "'a \<Rightarrow> 'k::linorder"
  assumes lt: "\<And>a b. py_lt (key a) (key b) = Inr (f a < f b)"
    and inj: "\<And>a b. (key a = key b) = (f a = f b)"
  shows "\<exists>ys. sorted_py key reverse xs = Inr ys \<and> mset ys = mset xs \<and>
     (\<forall>v. filter (\<lambda>c. key c = v) ys = filter (\<lambda>c. key c = v) xs) \<and>
     (if reverse then sorted_wrt (\<lambda>a b. py_lt (key a) (key b) = Inr False) ys
      else sorted_wrt (\<lambda>a b. py_lt (key b) (key a) = Inr False) ys)"
proof (cases reverse)
  case False
  let ?ys = "sort_key f xs"
  have "sorted (map f ?ys)" by simp
  then have "sorted_wrt (\<lambda>a b. f a \<le> f b) ?ys" by (simp add: sorted_map)
  then have "sorted_wrt (\<lambda>a b. py_lt (key b) (key a) = Inr False) ?ys"
    by (simp add: lt not_less)
  moreover have "\<forall>v. filter (\<lambda>c. key c = v) ?ys = filter (\<lambda>c. key c = v) xs"
    using stable_filter_typed [of key f, OF inj] by blast
  ultimately show ?thesis
    using False by (simp add: sorted_py_typed [of key f, OF lt])
next
  case True
  let ?zs = "sort_key f (rev xs)"
  have "sorted (map f ?zs)" by simp
  then have "sorted_wrt (\<lambda>a b. f a \<le> f b) ?zs" by (simp add: sorted_map)
  then have "sorted_wrt (\<lambda>a b. py_lt (key a) (key b) = Inr False) (rev ?zs)"
    by (simp add: lt not_less sorted_wrt_rev)
  moreover have "filter (\<lambda>c. key c = v) (rev ?zs) = filter (\<lambda>c. key c = v) xs" for v
  proof -
    have "filter (\<lambda>c. key c = v) (rev ?zs) = rev (filter (\<lambda>c. key c = v) ?zs)"
      by (simp add: rev_filter)
    also have "\<dots> = rev (filter (\<lambda>c. key c = v) (rev xs))"
      by (simp only: stable_filter_typed [of key f, OF inj])
    also have "\<dots> = filter (\<lambda>c. key c = v) xs" by (simp add: rev_filter)
    finally show ?thesis .
  qed
  moreover have "mset (rev ?zs) = mset xs" by simp
  ultimately show ?thesis
    using True by (simp add: sorted_py_typed [of key f, OF lt])
qed

lemma sort_key_rev_distinct:
  fixes f :: "'a \<Rightarrow> 'k::linorder"
  assumes "distinct (map f xs)"
  shows "sort_key f (rev xs) = sort_key f xs"
proof (rule sort_key_inj_key_eq)
  show "mset (rev xs) = mset (sort_key f xs)" by simp
  show "inj_on f (set (rev xs))" using assms by (simp add: distinct_map)
  show "sorted (map f (sort_key f xs))" by simp
qed

lemma city_get_fields:
  "(\<lambda>c. city_get c ''name'') = (\<lambda>c. PyStr (name c))"
  "(\<lambda>c. city_get c ''lat'') = (\<lambda>c. PyFloat (lat c))"
  "(\<lambda>c. city_get c ''lng'') = (\<lambda>c. PyFloat (lng c))"
  "(\<lambda>c. city_get c ''tz'') = (\<lambda>c. PyStr (tz c))"
  "(\<lambda>c. city_get c ''pop'') = (\<lambda>c. PyInt (pop c))"
  "(\<lambda>c. city_get c ''loc'') = (\<lambda>c. PyStr (loc c))"
  by (simp_all add: city_get_def fun_eq_iff)

lemma sort_step_field:
  assumes "k \<in> {''name'', ''lat'', ''lng'', ''tz'', ''pop'', ''loc''}"
  shows "\<exists>ys. sort_step (Some k) order' data = Inr ys \<and> mset ys = mset data \<and>
     (\<forall>v. filter (\<lambda>c. city_get c k = v) ys = filter (\<lambda>c. city_get c k = v) data) \<and>
     (if order' = ''desc''
      then sorted_wrt (\<lambda>a b. py_lt (city_get a k) (city_get b k) = Inr False) ys
      else sorted_wrt (\<lambda>a b. py_lt (city_get b k) (city_get a k) = Inr False) ys)"
proof -
  have ne: "k \<noteq> []" using assms by auto
  have step: "sort_step (Some k) order' data =
      sorted_py (\<lambda>c. city_get c k) (order' = ''desc'') data"
    using ne by (simp add: sort_step_def)
  consider "k = ''name''" | "k = ''lat''" | "k = ''lng''" | "k = ''tz''" | "k = ''pop''"
    | "k = ''loc''" using assms by auto
  then show ?thesis
  proof cases
    case 1
    show ?thesis unfolding step
      by (rule sorted_py_properties [of "\<lambda>c. city_get c k" name])
        (simp_all add: 1 city_get_def)
  next
    case 2
    show ?thesis unfolding step
      by (rule sorted_py_properties [of "\<lambda>c. city_get c k" lat])
        (simp_all add: 2 city_get_def)
  next
    case 3
    show ?thesis unfolding step
      by (rule sorted_py_properties [of "\<lambda>c. city_get c k" lng])
        (simp_all add: 3 city_get_def)
  next
    case 4
    show ?thesis unfolding step
      by (rule sorted_py_properties [of "\<lambda>c. city_get c k" tz])
        (simp_all add: 4 city_get_def)
  next
    case 5
    show ?thesis unfolding step
      by (rule sorted_py_properties [of "\<lambda>c. city_get c k" pop])
        (simp_all add: 5 city_get_def)
  next
    case 6
    show ?thesis unfolding step
      by (rule sorted_py_properties [of "\<lambda>c. city_get c k" loc])
        (simp_all add: 6 city_get_def)
  qed
qed

lemma sort_step_pop:
  "sort_step (Some ''pop'') order' data =
     Inr (if order' = ''desc'' then rev (sort_key pop (rev data)) else sort_key pop data)"
proof -
  have "sort_step (Some ''pop'') order' data =
      sorted_py (\<lambda>c. PyInt (pop c)) (order' = ''desc'') data"
    by (simp add: sort_step_def city_get_fields)
  also have "\<dots> = Inr (if order' = ''desc'' then rev (sort_key pop (rev data))
      else sort_key pop data)"
    by (rule sorted_py_typed) simp
  finally show ?thesis .
qed

lemma sort_step_pop_reverse:
  assumes "distinct (map pop data)" "order' \<noteq> ''desc''"
    "sort_step (Some ''pop'') order' data = Inr ys"
  shows "sort_step (Some ''pop'') ''desc'' data = Inr (rev ys)"
proof -
  have "ys = sort_key pop data" using assms(2,3) by (simp add: sort_step_pop)
  then show ?thesis
    by (simp add: sort_step_pop sort_key_rev_distinct [OF assms(1)])
qed

text \<open>
  Claim C2. For every record set and every sort key that names a field of the records,
  the sort step succeeds with a permutation of the records that is ordered by the
  field's value, descending when \<open>order\<close> equals the string \<open>desc\<close> and ascending for
  every other value of \<open>order\<close>, and that keeps records with the same value in the order
  they had (stability, in both directions). Over a record set with no two equal
  populations, sorting by \<open>pop\<close> with order \<open>desc\<close> gives the exact reverse of sorting
  by \<open>pop\<close> with any other order.
\<close>

theorem sort_step_stable_by_field:
  assumes "k \<in> {''name'', ''lat'', ''lng'', ''tz'', ''pop'', ''loc''}"
  shows "\<exists>ys. sort_step (Some k) order' data = Inr ys \<and> mset ys = mset data \<and>
     (\<forall>v. filter (\<lambda>c. city_get c k = v) ys = filter (\<lambda>c. city_get c k = v) data) \<and>
     (if order' = ''desc''
      then sorted_wrt (\<lambda>a b. py_lt (city_get a k) (city_get b k) = Inr False) ys
      else sorted_wrt (\<lambda>a b. py_lt (city_get b k) (city_get a k) = Inr False) ys) \<and>
     (k = ''pop'' \<and> distinct (map pop data) \<and> order' \<noteq> ''desc'' \<longrightarrow>
        sort_step (Some ''pop'') ''desc'' data = Inr (rev ys))"
proof -
  from sort_step_field [OF assms, of order' data] obtain ys where
    ys: "sort_step (Some k) order' data = Inr ys" "mset ys = mset data"
      "\<forall>v. filter (\<lambda>c. city_get c k = v) ys = filter (\<lambda>c. city_get c k = v) data"
      "if order' = ''desc''
       then sorted_wrt (\<lambda>a b. py_lt (city_get a k) (city_get b k) = Inr False) ys
       else sorted_wrt (\<lambda>a b. py_lt (city_get b k) (city_get a k) = Inr False) ys"
    by blast
  have "k = ''pop'' \<and> distinct (map pop data) \<and> order' \<noteq> ''desc'' \<longrightarrow>
        sort_step (Some ''pop'') ''desc'' data = Inr (rev ys)"
    using ys(1) sort_step_pop_reverse by blast
  with ys show ?thesis by blast
qed


theorem sort_step_stable_by_field_witness:
  "''pop'' \<in> {''name'', ''lat'', ''lng'', ''tz'', ''pop'', ''loc''} \<and>
   distinct (map pop [london, new_york]) \<and>
   sort_step (Some ''pop'') ''asc'' [london, new_york] = Inr [london, new_york] \<and>
   sort_step (Some ''pop'') ''desc'' [london, new_york] = Inr [new_york, london]"
proof -
  have k: "''pop'' \<in> {''name'', ''lat'', ''lng'', ''tz'', ''pop'', ''loc''}" by simp
  have d: "distinct (map pop [london, new_york])" by (simp add: london_def new_york_def)
  have asc: "sort_step (Some ''pop'') ''asc'' [london, new_york] = Inr [london, new_york]"
    by (simp add: sort_step_def sorted_py_def city_get_def london_def new_york_def)
  from sort_step_stable_by_field [OF k, of "''asc''" "[london, new_york]"] obtain ys where
    ys: "sort_step (Some ''pop'') ''asc'' [london, new_york] = Inr ys"
    and r: "''pop'' = ''pop'' \<and> distinct (map pop [london, new_york]) \<and> ''asc'' \<noteq> ''desc'' \<longrightarrow>
        sort_step (Some ''pop'') ''desc'' [london, new_york] = Inr (rev ys)"
    by blast
  from ys asc have "ys = [london, new_york]" by simp
  with r d have "sort_step (Some ''pop'') ''desc'' [london, new_york] = Inr [new_york, london]"
    by simp
  with k d asc show ?thesis by (intro conjI)
qed

section \<open>Properties of pagination\<close>

lemma slice_bound_nonneg: "0 \<le> i \<Longrightarrow> slice_bound n i = min n (nat i)"
  by (auto simp: slice_bound_def)

lemma slice_bound_stop: "slice_bound n i = nat (min (from_end n i) (int n))"
  by (auto simp: slice_bound_def from_end_def)

lemma take_clamped_start:
  "take (b - slice_bound (length xs) i) (drop (slice_bound (length xs) i) xs) =
   take (b - nat (max (from_end (length xs) i) 0)) (drop (nat (max (from_end (length xs) i) 0)) xs)"
  by (auto simp: slice_bound_def from_end_def)

lemma py_slice_clamped:
  "py_slice xs start stop =
     clamped_range xs (from_end (length xs) start) (from_end (length xs) stop)"
proof -
  have "py_slice xs start stop =
      take (slice_bound (length xs) stop - nat (max (from_end (length xs) start) 0))
        (drop (nat (max (from_end (length xs) start) 0)) xs)"
    unfolding py_slice_def by (rule take_clamped_start)
  also have "\<dots> = clamped_range xs (from_end (length xs) start) (from_end (length xs) stop)"
    unfolding clamped_range_def by (simp only: slice_bound_stop)
  finally show ?thesis .
qed

lemma paginate_nonneg:
  assumes "0 \<le> offset" "0 \<le> limit"
  shows "paginate data offset limit = take (nat limit) (drop (nat offset) data)"
proof (cases "nat offset \<le> length data")
  case True
  have a: "slice_bound (length data) offset = nat offset"
    using assms True by (simp add: slice_bound_nonneg)
  have b: "slice_bound (length data) (offset + limit) = min (length data) (nat offset + nat limit)"
    using assms by (simp add: slice_bound_nonneg nat_add_distrib)
  have "take (min (length data) (nat offset + nat limit) - nat offset) (drop (nat offset) data) =
      take (nat limit) (drop (nat offset) data)"
    using True by (simp add: min_def)
  then show ?thesis by (simp add: paginate_def py_slice_def a b)
next
  case False
  then have "slice_bound (length data) offset = length data"
    using assms by (simp add: slice_bound_nonneg)
  then show ?thesis using False by (simp add: paginate_def py_slice_def)
qed

lemma length_paginate:
  assumes "0 \<le> limit"
  shows "length (paginate data offset limit) \<le> nat limit"
proof -
  have "slice_bound (length data) (offset + limit) - slice_bound (length data) offset \<le> nat limit"
    using assms by (auto simp: slice_bound_def)
  then show ?thesis by (simp add: paginate_def py_slice_def)
qed

lemma concat_pages:
  assumes "0 < limit"
  shows "concat (map (\<lambda>i. paginate data (int i * limit) limit) [0..<k]) = take (k * nat limit) data"
proof (induction k)
  case 0
  then show ?case by simp
next
  case (Suc k)
  have "paginate data (int k * limit) limit = take (nat limit) (drop (nat (int k * limit)) data)"
    using assms by (intro paginate_nonneg) simp_all
  also have "nat (int k * limit) = k * nat limit"
    using assms by (simp add: nat_mult_distrib)
  finally have page: "paginate data (int k * limit) limit =
      take (nat limit) (drop (k * nat limit) data)" .
  have "take (Suc k * nat limit) data = take (k * nat limit + nat limit) data"
    by (simp add: add.commute)
  also have "\<dots> = take (k * nat limit) data @ take (nat limit) (drop (k * nat limit) data)"
    by (rule take_add)
  finally show ?case using Suc.IH page by simp
qed


lemma query_without_sort:
  "query E data q tz' min_pop limit offset None order' =
     Inr (paginate (apply_filters E q tz' min_pop data) offset limit)"
  by (simp add: query_def sort_step_def)

text \<open>
  Claim C3, as amended. For every sequence and all integers \<open>offset\<close> and \<open>limit\<close> the
  pagination step raises nothing and returns the positions from \<open>offset\<close> up to, not
  including, \<open>offset + limit\<close>, clamped to the positions the sequence has, after each of
  the two bounds that is negative has been counted from the end of the sequence (the
  length added to it). When \<open>offset\<close> and \<open>offset + limit\<close> are both non-negative this is
  the clamped slice of the specification: empty when the offset is past the end or the
  limit is not positive, partial when fewer than \<open>limit\<close> records remain.
\<close>

theorem paginate_is_python_slice:
  "paginate data offset limit =
     clamped_range data (from_end (length data) offset) (from_end (length data) (offset + limit)) \<and>
   (0 \<le> offset \<and> 0 \<le> offset + limit \<longrightarrow> paginate data offset limit = spec_page data offset limit) \<and>
   (0 \<le> offset \<and> 0 \<le> limit \<longrightarrow>
      paginate data offset limit = take (nat limit) (drop (nat offset) data)) \<and>
   query E data q tz' min_pop limit offset None order' =
     Inr (paginate (apply_filters E q tz' min_pop data) offset limit)"
proof (intro conjI impI)
  show general: "paginate data offset limit =
     clamped_range data (from_end (length data) offset) (from_end (length data) (offset + limit))"
    unfolding paginate_def by (rule py_slice_clamped)
  show "paginate data offset limit = spec_page data offset limit"
    if "0 \<le> offset \<and> 0 \<le> offset + limit"
    using that general by (simp add: spec_page_def from_end_def)
  show "paginate data offset limit = take (nat limit) (drop (nat offset) data)"
    if "0 \<le> offset \<and> 0 \<le> limit"
    using that by (simp add: paginate_nonneg)
  show "query E data q tz' min_pop limit offset None order' =
     Inr (paginate (apply_filters E q tz' min_pop data) offset limit)"
    by (rule query_without_sort)
qed

theorem paginate_is_python_slice_witness:
  "(0::int) \<le> 1 \<and> (0::int) \<le> 1 + 5 \<and> (0::int) \<le> 5 \<and>
   paginate [london, new_york] 1 5 = [new_york] \<and>
   spec_page [london, new_york] 1 5 = [new_york] \<and>
   paginate [london, new_york] 1 5 = take (nat 5) (drop (nat 1) [london, new_york])"
proof -
  have h: "(0::int) \<le> 1 \<and> (0::int) \<le> 1 + 5" "(0::int) \<le> 1 \<and> (0::int) \<le> 5" by simp_all
  note inst = paginate_is_python_slice [of "[london, new_york]" 1 5]
  from inst h have a: "paginate [london, new_york] 1 5 = spec_page [london, new_york] 1 5"
    and b: "paginate [london, new_york] 1 5 = take (nat 5) (drop (nat 1) [london, new_york])"
    by blast+
  have c: "spec_page [london, new_york] 1 5 = [new_york]"
    by (simp add: spec_page_def clamped_range_def)
  from a b c h show ?thesis by simp
qed

text \<open>
  Claim C3 as stated fails at a negative limit and at a negative offset: over two records,
  offset 0 with limit -1 returns the first record, and offset -2 with limit 1 returns a
  full page of one record, where the positions from \<open>offset\<close> to \<open>offset + limit\<close>
  clamped to the available range are none.
\<close>

theorem paginate_negative_bound_counterexample:
  "paginate [london, new_york] 0 (- 1) = [london] \<and>
   spec_page [london, new_york] 0 (- 1) = [] \<and>
   paginate [london, new_york] (- 2) 1 = [london] \<and>
   length (paginate [london, new_york] (- 2) 1) = nat 1 \<and>
   spec_page [london, new_york] (- 2) 1 = []"
  by (simp add: paginate_def py_slice_def slice_bound_def spec_page_def clamped_range_def)

text \<open>
  Claim C5. For every sequence, every positive limit \<open>L\<close> and every offset, the page has
  at most \<open>L\<close> records; the pages at offsets \<open>0, L, 2L, \<dots>, (k - 1) L\<close>, concatenated, are
  the first \<open>k L\<close> records of the sequence, so as soon as \<open>k L\<close> reaches the length they
  are the whole sequence, every record once and in order.
\<close>

theorem pages_reconstruct_sequence:
  assumes "0 < limit"
  shows "length (paginate data offset limit) \<le> nat limit \<and>
     concat (map (\<lambda>i. paginate data (int i * limit) limit) [0..<k]) = take (k * nat limit) data \<and>
     (length data \<le> k * nat limit \<longrightarrow>
        concat (map (\<lambda>i. paginate data (int i * limit) limit) [0..<k]) = data)"
proof -
  have "length (paginate data offset limit) \<le> nat limit"
    using assms by (intro length_paginate) simp
  moreover note concat_pages [OF assms, of data k]
  ultimately show ?thesis by simp
qed

theorem pages_reconstruct_sequence_witness:
  "(0::int) < 2 \<and> length [london, new_york, london] \<le> 2 * nat 2 \<and>
   length (paginate [london, new_york, london] 0 2) \<le> nat 2 \<and>
   paginate [london, new_york, london] 0 2 @ paginate [london, new_york, london] 2 2 =
     [london, new_york, london]"
proof -
  have h: "(0::int) < 2" by simp
  have l: "length [london, new_york, london] \<le> 2 * nat 2" by simp
  note inst = pages_reconstruct_sequence [OF h, of "[london, new_york, london]" 0 2]
  from inst l have "concat (map (\<lambda>i. paginate [london, new_york, london] (int i * 2) 2) [0..<2]) =
      [london, new_york, london]" by blast
  moreover have "[0..<2] = [0, Suc 0]" by (simp add: upt_rec)
  ultimately have "paginate [london, new_york, london] 0 2 @
      paginate [london, new_york, london] 2 2 = [london, new_york, london]" by simp
  moreover from inst have "length (paginate [london, new_york, london] 0 2) \<le> nat 2" by blast
  ultimately show ?thesis using h l by (intro conjI)
qed

section \<open>Validation and the empty query\<close>

lemma city_of_row_scorer_free:
  "city_of_row (E\<lparr>partial_ratio := pr, lower := lw\<rparr>) row = city_of_row E row"
  by (simp add: city_of_row_def to_float_def to_int_def cong: if_cong)

lemma load_rows_scorer_free:
  "load_rows (E\<lparr>partial_ratio := pr, lower := lw\<rparr>) rows acc = load_rows E rows acc"
  by (induction rows arbitrary: acc) (simp_all add: city_of_row_scorer_free split: sum.splits)

lemma load_cities_cached_scorer_free:
  "load_cities_cached (E\<lparr>partial_ratio := pr, lower := lw\<rparr>) rows st =
     load_cities_cached E rows st"
  by (simp add: load_cities_cached_def load_cities_def load_rows_scorer_free split: option.splits)

lemma filter_q_falsy:
  "filter_q E None data = data" "filter_q E (Some []) data = data"
  by (simp_all add: filter_q_def)

lemma query_falsy_q:
  "query (E\<lparr>partial_ratio := pr, lower := lw\<rparr>) data (Some []) tz' min_pop limit offset
       sort' order' =
     query E data None tz' min_pop limit offset sort' order'"
  by (simp add: query_def apply_filters_def filter_q_falsy)

lemma get_cities_rejects:
  assumes "\<not> truthy q" "\<not> truthy tz'"
  shows "get_cities E rows st q tz' None limit offset sort' order' =
     (HTTPException 400 ''Please provide at least one filter: q, tz, or min_pop'', st)"
  using assms by (simp add: get_cities_def)

lemma get_cities_proceeds:
  assumes "truthy q \<or> truthy tz' \<or> min_pop \<noteq> None"
  shows "get_cities E rows st q tz' min_pop limit offset sort' order' =
     (case load_cities_cached E rows st of
        (Inl e, st') \<Rightarrow> (Uncaught e, st')
      | (Inr data, st') \<Rightarrow>
          (case query E data q tz' min_pop limit offset sort' order' of
             Inl e \<Rightarrow> (Uncaught e, st')
           | Inr paged \<Rightarrow> (Page paged, st')))"
proof -
  have "\<not> (\<not> truthy q \<and> \<not> truthy tz' \<and> min_pop = None)" using assms by blast
  then show ?thesis by (simp only: get_cities_def if_False)
qed

text \<open>
  Claim C10. A request whose \<open>q\<close> is the empty string is handled exactly as the same
  request without \<open>q\<close>: the name filter leaves the data as it is, the answer and the
  state after it are those of the request without \<open>q\<close> whatever the scorer and the
  lower-casing function are (so no record is scored), and when neither \<open>tz\<close> nor
  \<open>min_pop\<close> is given the request is rejected with status 400 and the state untouched.
\<close>

theorem empty_query_treated_as_absent:
  "filter_q E (Some []) data = data \<and>
   get_cities E rows st (Some []) tz' min_pop limit offset sort' order' =
     get_cities E rows st None tz' min_pop limit offset sort' order' \<and>
   get_cities (E\<lparr>partial_ratio := pr, lower := lw\<rparr>) rows st (Some []) tz' min_pop limit offset
       sort' order' =
     get_cities E rows st None tz' min_pop limit offset sort' order' \<and>
   get_cities E rows st (Some []) None None limit offset sort' order' =
     (HTTPException 400 ''Please provide at least one filter: q, tz, or min_pop'', st) \<and>
   status_code (fst (get_cities E rows st (Some []) None None limit offset sort' order')) = 400"
proof -
  have scorer: "get_cities (E\<lparr>partial_ratio := pr, lower := lw\<rparr>) rows st (Some []) tz' min_pop
      limit offset sort' order' = get_cities E rows st None tz' min_pop limit offset sort' order'"
    for pr lw
    by (simp only: get_cities_def load_cities_cached_scorer_free query_falsy_q truthy_simps)
  have same: "get_cities E rows st (Some []) tz' min_pop limit offset sort' order' =
      get_cities E rows st None tz' min_pop limit offset sort' order'"
    using scorer [where pr = "partial_ratio E" and lw = "lower E"] by simp
  have reject: "get_cities E rows st (Some []) None None limit offset sort' order' =
      (HTTPException 400 ''Please provide at least one filter: q, tz, or min_pop'', st)"
    by (rule get_cities_rejects) (simp_all add: truthy_simps)
  have "status_code (fst (get_cities E rows st (Some []) None None limit offset sort' order')) = 400"
    by (simp only: reject fst_conv status_code.simps)
  with scorer same reject show ?thesis by (simp only: filter_q_falsy simp_thms)
qed


lemma truthy_iff: "truthy s \<longleftrightarrow> \<not> (s = None \<or> s = Some [])"
  by (cases s) (simp_all add: truthy_def)

lemma status_code_proceeds:
  "status_code (fst (case r of
        (Inl e, st') \<Rightarrow> (Uncaught e, st')
      | (Inr data, st') \<Rightarrow>
          (case f data of Inl e \<Rightarrow> (Uncaught e, st') | Inr paged \<Rightarrow> (Page paged, st')))) \<noteq> 400"
  by (cases r) (auto split: sum.splits)

text \<open>
  Claim C4, as amended. A request in which \<open>q\<close> is missing or empty, \<open>tz\<close> is missing or
  empty and \<open>min_pop\<close> is missing is rejected with status 400 and the state as it was:
  the cache is not consulted and the file is not read. Every other request goes on to the
  loader and the pipeline: its status is never 400, and when the loader delivers the data
  and the pipeline a page, that page is the answer.
\<close>

theorem validation_requires_a_filter:
  "((q = None \<or> q = Some []) \<and> (tz' = None \<or> tz' = Some []) \<and> min_pop = None \<longrightarrow>
      get_cities E rows st q tz' min_pop limit offset sort' order' =
        (HTTPException 400 ''Please provide at least one filter: q, tz, or min_pop'', st)) \<and>
   (\<not> ((q = None \<or> q = Some []) \<and> (tz' = None \<or> tz' = Some []) \<and> min_pop = None) \<longrightarrow>
      status_code (fst (get_cities E rows st q tz' min_pop limit offset sort' order')) \<noteq> 400 \<and>
      (\<forall>data st' paged.
         load_cities_cached E rows st = (Inr data, st') \<and>
         query E data q tz' min_pop limit offset sort' order' = Inr paged \<longrightarrow>
         get_cities E rows st q tz' min_pop limit offset sort' order' = (Page paged, st')))"
proof (intro conjI impI allI)
  assume "(q = None \<or> q = Some []) \<and> (tz' = None \<or> tz' = Some []) \<and> min_pop = None"
  then have "\<not> truthy q" "\<not> truthy tz'" "min_pop = None" by (simp_all add: truthy_iff)
  then show "get_cities E rows st q tz' min_pop limit offset sort' order' =
        (HTTPException 400 ''Please provide at least one filter: q, tz, or min_pop'', st)"
    using get_cities_rejects by simp
next
  assume "\<not> ((q = None \<or> q = Some []) \<and> (tz' = None \<or> tz' = Some []) \<and> min_pop = None)"
  then have "truthy q \<or> truthy tz' \<or> min_pop \<noteq> None" by (simp add: truthy_iff)
  then show "status_code (fst (get_cities E rows st q tz' min_pop limit offset sort' order')) \<noteq> 400"
    by (simp only: get_cities_proceeds status_code_proceeds not_False_eq_True)
next
  fix data st' paged
  assume "\<not> ((q = None \<or> q = Some []) \<and> (tz' = None \<or> tz' = Some []) \<and> min_pop = None)"
  then have go: "truthy q \<or> truthy tz' \<or> min_pop \<noteq> None" by (simp add: truthy_iff)
  assume "load_cities_cached E rows st = (Inr data, st') \<and>
         query E data q tz' min_pop limit offset sort' order' = Inr paged"
  then show "get_cities E rows st q tz' min_pop limit offset sort' order' = (Page paged, st')"
    by (simp add: get_cities_proceeds [OF go])
qed

lemma load_sample: "load_cities sample_env [london_row, new_york_row] = Inr [london, new_york]"
  by (simp add: load_cities_def eval_london eval_new_york)

lemma load_cached_sample:
  "load_cities_cached sample_env [london_row, new_york_row] fresh =
     (Inr [london, new_york], \<lparr>cache = Some [london, new_york], file_reads = 1\<rparr>)"
  by (simp add: load_cities_cached_def load_sample fresh_def)

lemma query_sample_tz:
  "query sample_env [london, new_york] None (Some ''Europe/London'') None 50 0 None ''asc'' =
     Inr [london]"
  by (simp add: query_def sort_step_def apply_filters_def filter_q_def filter_tz_def
      filter_min_pop_def paginate_def py_slice_def slice_bound_def london_def new_york_def)

theorem validation_requires_a_filter_witness:
  "get_cities sample_env [london_row, new_york_row] fresh None None None 50 0 None ''asc'' =
     (HTTPException 400 ''Please provide at least one filter: q, tz, or min_pop'', fresh) \<and>
   load_cities_cached sample_env [london_row, new_york_row] fresh =
     (Inr [london, new_york], \<lparr>cache = Some [london, new_york], file_reads = 1\<rparr>) \<and>
   query sample_env [london, new_york] None (Some ''Europe/London'') None 50 0 None ''asc'' =
     Inr [london] \<and>
   get_cities sample_env [london_row, new_york_row] fresh None (Some ''Europe/London'') None 50 0
       None ''asc'' = (Page [london], \<lparr>cache = Some [london, new_york], file_reads = 1\<rparr>)"
proof -
  have a: "((None::string option) = None \<or> (None::string option) = Some []) \<and>
      ((None::string option) = None \<or> (None::string option) = Some []) \<and>
      (None::int option) = None" by simp
  from validation_requires_a_filter [of None None None sample_env "[london_row, new_york_row]"
      fresh 50 0 None "''asc''"] a
  have reject: "get_cities sample_env [london_row, new_york_row] fresh None None None 50 0 None
      ''asc'' = (HTTPException 400 ''Please provide at least one filter: q, tz, or min_pop'', fresh)"
    by blast
  have b: "\<not> (((None::string option) = None \<or> (None::string option) = Some []) \<and>
      (Some ''Europe/London'' = None \<or> Some ''Europe/London'' = Some []) \<and>
      (None::int option) = None)" by simp
  from validation_requires_a_filter [of None "Some ''Europe/London''" None sample_env
      "[london_row, new_york_row]" fresh 50 0 None "''asc''"] b load_cached_sample query_sample_tz
  have "get_cities sample_env [london_row, new_york_row] fresh None (Some ''Europe/London'') None
      50 0 None ''asc'' = (Page [london], \<lparr>cache = Some [london, new_york], file_reads = 1\<rparr>)"
    by blast
  with reject load_cached_sample query_sample_tz show ?thesis by (intro conjI)
qed

text \<open>
  Claim C4 as stated fails where a filter is supplied but empty: a request that supplies
  \<open>q\<close> (or \<open>tz\<close>) as the empty string and nothing else is rejected with status 400,
  although one of the three parameters was supplied.
\<close>

theorem supplied_empty_filter_counterexample:
  "get_cities sample_env [london_row, new_york_row] fresh (Some []) None None 50 0 None ''asc'' =
     (HTTPException 400 ''Please provide at least one filter: q, tz, or min_pop'', fresh) \<and>
   get_cities sample_env [london_row, new_york_row] fresh None (Some []) None 50 0 None ''asc'' =
     (HTTPException 400 ''Please provide at least one filter: q, tz, or min_pop'', fresh)"
  by (simp add: get_cities_def truthy_simps)

section \<open>Properties of the rate limiter\<close>

lemma admit_other_key: "key' \<noteq> key \<Longrightarrow> snd (admit L key now) key' = L key'"
  by (simp add: admit_def Let_def)

lemma admit_depends_on_own_history:
  "L key = L' key \<Longrightarrow> fst (admit L key now) = fst (admit L' key now) \<and>
     snd (admit L key now) key = snd (admit L' key now) key"
  by (simp add: admit_def Let_def)

lemma admit_no_history: "L key = [] \<Longrightarrow> fst (admit L key now) = True"
  by (simp add: admit_def quota_def)

lemma checks_Cons:
  "checks L (c # cs) =
     (fst (admit L (fst c) (snd c)) # fst (checks (snd (admit L (fst c) (snd c))) cs),
      snd (checks (snd (admit L (fst c) (snd c))) cs))"
  by (simp split: prod.splits)

lemma length_checks: "length (fst (checks L cs)) = length cs"
  by (induction cs arbitrary: L) (simp_all add: checks_Cons del: checks.simps(2))

lemma decisions_of_independent:
  "L key = L' key \<Longrightarrow>
     decisions_of key cs (fst (checks L cs)) = fst (checks L' (checks_of key cs))"
proof (induction cs arbitrary: L L')
  case Nil
  then show ?case by (simp add: decisions_of_def checks_of_def)
next
  case (Cons c cs)
  show ?case
  proof (cases "fst c = key")
    case True
    from admit_depends_on_own_history [of L key L' "snd c"] Cons.prems
    have d: "fst (admit L key (snd c)) = fst (admit L' key (snd c))"
      and s: "snd (admit L key (snd c)) key = snd (admit L' key (snd c)) key" by simp_all
    from Cons.IH [of "snd (admit L key (snd c))" "snd (admit L' key (snd c))"] s d True
    show ?thesis
      by (simp add: decisions_of_def checks_of_def checks_Cons del: checks.simps(2))
  next
    case False
    then have "snd (admit L (fst c) (snd c)) key = L' key"
      using Cons.prems by (simp add: admit_other_key)
    from Cons.IH [of "snd (admit L (fst c) (snd c))" L'] this False show ?thesis
      by (simp add: decisions_of_def checks_of_def checks_Cons del: checks.simps(2))
  qed
qed


lemma admit_all_recent:
  assumes "\<forall>u \<in> set (L key). now - u < window"
  shows "fst (admit L key now) = (length (L key) < quota)"
    and "snd (admit L key now) key = (if length (L key) < quota then now # L key else L key)"
proof -
  have "[t \<leftarrow> L key. now - t < window] = L key" using assms by (simp add: filter_id_conv)
  then show "fst (admit L key now) = (length (L key) < quota)"
    and "snd (admit L key now) key = (if length (L key) < quota then now # L key else L key)"
    by (simp_all add: admit_def Let_def)
qed

lemma checks_within_window:
  assumes "\<forall>t \<in> set ts. \<forall>u \<in> set (L key) \<union> set ts. t - u < window"
  shows "fst (checks L (map (Pair key) ts)) = map (\<lambda>i. length (L key) + i < quota) [0..<length ts]"
  using assms
proof (induction ts arbitrary: L)
  case Nil
  then show ?case by simp
next
  case (Cons t ts)
  let ?L' = "snd (admit L key t)"
  have recent: "\<forall>u \<in> set (L key). t - u < window" using Cons.prems by simp
  note step = admit_all_recent [of L key t, OF recent]
  have "\<forall>t' \<in> set ts. \<forall>u \<in> set (?L' key) \<union> set ts. t' - u < window"
    using Cons.prems by (auto simp: step(2))
  from Cons.IH [of ?L'] this
  have rest: "fst (checks ?L' (map (Pair key) ts)) =
      map (\<lambda>i. length (?L' key) + i < quota) [0..<length ts]" by blast
  have "map (\<lambda>i. length (?L' key) + i < quota) [0..<length ts] =
      map (\<lambda>i. length (L key) + Suc i < quota) [0..<length ts]"
    by (simp add: step(2))
  with rest have "fst (checks L (map (Pair key) (t # ts))) =
      (length (L key) < quota) # map (\<lambda>i. length (L key) + Suc i < quota) [0..<length ts]"
    by (simp add: checks_Cons step(1) del: checks.simps(2))
  also have "\<dots> = map (\<lambda>i. length (L key) + i < quota) [0..<length (t # ts)]"
    by (simp add: map_upt_Suc del: upt_Suc)
  finally show ?case .
qed

lemma checks_of_as_times: "checks_of key cs = map (Pair key) (map snd (checks_of key cs))"
  by (induction cs) (auto simp: checks_of_def)

lemma eleventh_check_rejected:
  assumes "L key = []" "length (checks_of key cs) = 11"
    "\<forall>c \<in> set (checks_of key cs). \<forall>c' \<in> set (checks_of key cs). snd c - snd c' < window"
  shows "decisions_of key cs (fst (checks L cs)) = replicate 10 True @ [False]"
proof -
  let ?ts = "map snd (checks_of key cs)"
  have within: "\<forall>t \<in> set ?ts. \<forall>u \<in> set (L key) \<union> set ?ts. t - u < window"
    using assms(1,3) by auto
  have "decisions_of key cs (fst (checks L cs)) = fst (checks L (checks_of key cs))"
    by (rule decisions_of_independent) simp
  also have "\<dots> = fst (checks L (map (Pair key) ?ts))"
    using checks_of_as_times [of key cs] by simp
  also have "\<dots> = map (\<lambda>i. length (L key) + i < quota) [0..<length ?ts]"
    using within by (rule checks_within_window)
  also have "\<dots> = map (\<lambda>i. i < 10) [0..<11]"
    using assms(1,2) by (simp add: quota_def)
  also have "\<dots> = replicate 10 True @ [False]"
    by (simp add: upt_rec numeral_eq_Suc)
  finally show ?thesis .
qed

lemma checks_other_keys: "key \<notin> fst ` set cs \<Longrightarrow> snd (checks L cs) key = L key"
proof (induction cs arbitrary: L)
  case Nil
  then show ?case by simp
next
  case (Cons c cs)
  then have "fst c \<noteq> key" "key \<notin> fst ` set cs" by auto
  with Cons.IH [of "snd (admit L (fst c) (snd c))"] show ?case
    by (simp add: checks_Cons admit_other_key del: checks.simps(2))
qed

lemma first_check_of_other_key:
  assumes "L key' = []" "key' \<notin> fst ` set cs"
  shows "fst (admit (snd (checks L cs)) key' now) = True"
  by (rule admit_no_history) (simp add: checks_other_keys assms)

lemma endpoint_rejects:
  assumes "fst (admit L key now) = False"
  shows "cities_endpoint E rows L st key now q tz' min_pop limit offset sort' order' =
     (Response ''Too Many Requests'' 429, snd (admit L key now), st)"
proof (cases "admit L key now")
  case (Pair ok L')
  with assms have "ok = False" by simp
  with Pair show ?thesis by (simp add: cities_endpoint_def)
qed

lemma length_filter_mono:
  "(\<And>x. x \<in> set xs \<Longrightarrow> P x \<Longrightarrow> Q x) \<Longrightarrow> length (filter P xs) \<le> length (filter Q xs)"
proof (induction xs)
  case Nil
  then show ?case by simp
next
  case (Cons x xs)
  then have "length (filter P xs) \<le> length (filter Q xs)" by simp
  moreover have "P x \<Longrightarrow> Q x" using Cons.prems by simp
  ultimately show ?case by auto
qed

lemma window_bound_admitted:
  assumes bound: "\<And>t. length [u \<leftarrow> H. t - window < u \<and> u \<le> t] \<le> quota"
    and before: "\<forall>u \<in> set H. u \<le> now"
    and room: "length [u \<leftarrow> H. now - u < window] < quota"
  shows "length [u \<leftarrow> now # H. t - window < u \<and> u \<le> t] \<le> quota"
proof (cases "now \<le> t")
  case False
  then show ?thesis using bound [of t] by simp
next
  case True
  have "length [u \<leftarrow> H. t - window < u \<and> u \<le> t] \<le> length [u \<leftarrow> H. now - u < window]"
    using True by (intro length_filter_mono) auto
  with room show ?thesis by simp
qed


lemma admit_fst: "fst (admit L key now) = (length [t \<leftarrow> L key. now - t < window] < quota)"
  by (simp add: admit_def Let_def)

lemma admit_snd_key:
  "snd (admit L key now) key =
     (if length [t \<leftarrow> L key. now - t < window] < quota
      then now # [t \<leftarrow> L key. now - t < window] else [t \<leftarrow> L key. now - t < window])"
  by (simp add: admit_def Let_def)

lemma admitted_times_Cons:
  "admitted_times key (c # cs) (ok # oks) =
     (if fst c = key \<and> ok then snd c # admitted_times key cs oks else admitted_times key cs oks)"
  by (simp add: admitted_times_def)

lemma recent_of_recent:
  assumes "(t0::real) \<le> t"
  shows "[u \<leftarrow> [u \<leftarrow> xs. t0 - u < window]. t - u < window] = [u \<leftarrow> xs. t - u < window]"
proof -
  have "(\<lambda>u. t0 - u < window \<and> t - u < window) = (\<lambda>u. t - u < window)"
    using assms by (intro ext) auto
  then show ?thesis by (simp add: conj_commute)
qed

lemma own_run_window_bound:
  assumes "sorted ts"
    and "\<forall>u \<in> set H. \<forall>t \<in> set ts. u \<le> t"
    and "\<forall>t \<in> set ts. [u \<leftarrow> L key. t - u < window] = [u \<leftarrow> H. t - u < window]"
    and "\<And>t. length [u \<leftarrow> H. t - window < u \<and> u \<le> t] \<le> quota"
  shows "length [u \<leftarrow> admitted_times key (map (Pair key) ts)
            (fst (checks L (map (Pair key) ts))) @ H. t - window < u \<and> u \<le> t] \<le> quota"
  using assms
proof (induction ts arbitrary: L H)
  case Nil
  then show ?case by (simp add: admitted_times_def)
next
  case (Cons t0 ts)
  let ?recent = "[u \<leftarrow> L key. t0 - u < window]"
  let ?ok = "length ?recent < quota"
  let ?L' = "snd (admit L key t0)"
  let ?H' = "if ?ok then t0 # H else H"
  let ?A' = "admitted_times key (map (Pair key) ts) (fst (checks ?L' (map (Pair key) ts)))"
  have recent: "?recent = [u \<leftarrow> H. t0 - u < window]" using Cons.prems(3) by simp
  have later: "\<forall>t \<in> set ts. t0 \<le> t" using Cons.prems(1) by simp
  have s: "sorted ts" using Cons.prems(1) by simp
  have b: "\<forall>u \<in> set ?H'. \<forall>t \<in> set ts. u \<le> t" using Cons.prems(2) later by simp
  have r: "\<forall>t \<in> set ts. [u \<leftarrow> ?L' key. t - u < window] = [u \<leftarrow> ?H'. t - u < window]"
  proof
    fix t assume t: "t \<in> set ts"
    then have le: "t0 \<le> t" using later by simp
    have "[u \<leftarrow> ?recent. t - u < window] = [u \<leftarrow> H. t - u < window]"
      unfolding recent using le by (rule recent_of_recent)
    then show "[u \<leftarrow> ?L' key. t - u < window] = [u \<leftarrow> ?H'. t - u < window]"
      by (simp add: admit_snd_key)
  qed
  have p: "length [u \<leftarrow> ?H'. t - window < u \<and> u \<le> t] \<le> quota" for t
  proof (cases ?ok)
    case True
    have "length [u \<leftarrow> t0 # H. t - window < u \<and> u \<le> t] \<le> quota"
    proof (rule window_bound_admitted)
      show "length [u \<leftarrow> H. t - window < u \<and> u \<le> t] \<le> quota" for t by (rule Cons.prems(4))
      show "\<forall>u \<in> set H. u \<le> t0" using Cons.prems(2) by simp
      show "length [u \<leftarrow> H. t0 - u < window] < quota" using True recent by simp
    qed
    with True show ?thesis by simp
  next
    case False
    then show ?thesis using Cons.prems(4) [of t] by simp
  qed
  have IH: "length [u \<leftarrow> ?A' @ ?H'. t - window < u \<and> u \<le> t] \<le> quota"
    using s b r p by (rule Cons.IH)
  have eq: "admitted_times key (map (Pair key) (t0 # ts))
      (fst (checks L (map (Pair key) (t0 # ts)))) = (if ?ok then t0 # ?A' else ?A')"
    by (simp add: checks_Cons admitted_times_Cons admit_fst del: checks.simps(2))
  have len: "length [u \<leftarrow> (if ?ok then t0 # ?A' else ?A') @ H. t - window < u \<and> u \<le> t] =
      length [u \<leftarrow> ?A' @ ?H'. t - window < u \<and> u \<le> t]"
    by simp
  show ?case by (simp only: eq len IH)
qed


lemma zip_checks_of:
  "length oks = length cs \<Longrightarrow>
     zip (checks_of key cs) (decisions_of key cs oks) = [p \<leftarrow> zip cs oks. fst (fst p) = key]"
  by (induction oks cs rule: list_induct2) (simp_all add: checks_of_def decisions_of_def)

lemma admitted_times_own:
  assumes "length oks = length cs"
  shows "admitted_times key cs oks =
     admitted_times key (checks_of key cs) (decisions_of key cs oks)"
proof -
  have "(\<lambda>p. (fst (fst p) = key \<and> snd p) \<and> fst (fst p) = key) =
      (\<lambda>p::(string \<times> real) \<times> bool. fst (fst p) = key \<and> snd p)" by auto
  then show ?thesis
    by (simp add: admitted_times_def zip_checks_of [OF assms])
qed

lemma window_bound:
  assumes "sorted (map snd cs)"
  shows "length [u \<leftarrow> admitted_times key cs (fst (checks no_history cs)).
           t - window < u \<and> u \<le> t] \<le> quota"
proof -
  let ?ts = "map snd (checks_of key cs)"
  have own: "checks_of key cs = map (Pair key) ?ts" by (rule checks_of_as_times)
  have sorted: "sorted ?ts" unfolding checks_of_def using assms by (rule sorted_filter)
  have "admitted_times key cs (fst (checks no_history cs)) =
      admitted_times key (checks_of key cs) (decisions_of key cs (fst (checks no_history cs)))"
    by (rule admitted_times_own) (rule length_checks)
  also have "decisions_of key cs (fst (checks no_history cs)) =
      fst (checks no_history (checks_of key cs))"
    by (rule decisions_of_independent) simp
  finally have "admitted_times key cs (fst (checks no_history cs)) @ [] =
      admitted_times key (map (Pair key) ?ts) (fst (checks no_history (map (Pair key) ?ts))) @ []"
    using own by simp
  moreover have "length [u \<leftarrow> admitted_times key (map (Pair key) ?ts)
      (fst (checks no_history (map (Pair key) ?ts))) @ []. t - window < u \<and> u \<le> t] \<le> quota"
    using sorted by (rule own_run_window_bound) (simp_all add: no_history_def)
  ultimately show ?thesis by simp
qed

text \<open>
  Claim C9, against the limiter modelled from the specification. Over any sequence of
  admission checks in time order, starting with no history, a client key has at most 10
  admitted checks in every window of 60 seconds. For a key without history, eleven
  checks that lie within 60 seconds of each other are decided ten times admitted and
  then rejected, whatever checks of other keys come in between; a rejected check is
  answered with status 429 and body \<open>Too Many Requests\<close>, the handler is not run and
  the application state stays as it was. The first check of another key without history
  is admitted whatever happened to the other keys, and the decisions for a key are those
  it would get if the checks of all other keys, admitted or rejected, had never happened.
\<close>

theorem rate_limit_ten_per_minute:
  "(sorted (map snd cs) \<longrightarrow>
      length [u \<leftarrow> admitted_times key cs (fst (checks no_history cs)).
         t - window < u \<and> u \<le> t] \<le> quota) \<and>
   (L key = [] \<and> length (checks_of key cs) = 11 \<and>
    (\<forall>c \<in> set (checks_of key cs). \<forall>c' \<in> set (checks_of key cs). snd c - snd c' < window) \<longrightarrow>
      decisions_of key cs (fst (checks L cs)) = replicate 10 True @ [False]) \<and>
   (fst (admit L key now) = False \<longrightarrow>
      cities_endpoint E rows L st key now q tz' min_pop limit offset sort' order' =
        (Response ''Too Many Requests'' 429, snd (admit L key now), st)) \<and>
   (L key' = [] \<and> key' \<notin> fst ` set cs \<longrightarrow> fst (admit (snd (checks L cs)) key' now) = True) \<and>
   decisions_of key cs (fst (checks L cs)) = fst (checks L (checks_of key cs)) \<and>
   quota = 10 \<and> window = 60"
proof (intro conjI impI)
  show "length [u \<leftarrow> admitted_times key cs (fst (checks no_history cs)).
      t - window < u \<and> u \<le> t] \<le> quota" if "sorted (map snd cs)"
    using that by (rule window_bound)
  show "decisions_of key cs (fst (checks L cs)) = replicate 10 True @ [False]"
    if "L key = [] \<and> length (checks_of key cs) = 11 \<and>
      (\<forall>c \<in> set (checks_of key cs). \<forall>c' \<in> set (checks_of key cs). snd c - snd c' < window)"
    using that by (intro eleventh_check_rejected) simp_all
  show "cities_endpoint E rows L st key now q tz' min_pop limit offset sort' order' =
        (Response ''Too Many Requests'' 429, snd (admit L key now), st)"
    if "fst (admit L key now) = False"
    using that by (rule endpoint_rejects)
  show "fst (admit (snd (checks L cs)) key' now) = True" if "L key' = [] \<and> key' \<notin> fst ` set cs"
    using that by (intro first_check_of_other_key) simp_all
  show "decisions_of key cs (fst (checks L cs)) = fst (checks L (checks_of key cs))"
    by (rule decisions_of_independent) simp
  show "quota = 10" by (simp add: quota_def)
  show "window = 60" by (simp add: window_def)
qed


lemma clients_differ: "client_a \<noteq> client_b"
  by (simp add: client_a_def client_b_def)

lemma checks_of_burst_a:
  "checks_of client_a burst = map (Pair client_a) [0, 1, 2, 3, 4, 5, 6, 7, 8, 9, 10]"
  using clients_differ by (simp add: checks_of_def burst_def)

lemma checks_of_burst_b: "checks_of client_b burst = [(client_b, 2.5)]"
  using clients_differ by (simp add: checks_of_def burst_def)

lemma exhausted_rejects: "fst (admit exhausted client_a 30) = False"
  by (simp add: admit_def exhausted_def window_def quota_def)

theorem rate_limit_ten_per_minute_witness:
  "sorted (map snd burst) \<and>
   length [u \<leftarrow> admitted_times client_a burst (fst (checks no_history burst)).
      10 - window < u \<and> u \<le> 10] \<le> quota \<and>
   no_history client_a = [] \<and> length (checks_of client_a burst) = 11 \<and>
   decisions_of client_a burst (fst (checks no_history burst)) = replicate 10 True @ [False] \<and>
   decisions_of client_b burst (fst (checks no_history burst)) = [True] \<and>
   fst (admit exhausted client_a 30) = False \<and>
   fst (cities_endpoint sample_env [london_row] exhausted fresh client_a 30 None
       (Some ''Europe/London'') None 50 0 None ''asc'') = Response ''Too Many Requests'' 429 \<and>
   exhausted client_b = [] \<and>
   fst (admit (snd (checks exhausted (checks_of client_a burst))) client_b 30) = True"
proof -
  have h1: "sorted (map snd burst)" by (simp add: burst_def)
  have h2: "no_history client_a = []" by (simp add: no_history_def)
  have h3: "length (checks_of client_a burst) = 11" by (simp add: checks_of_burst_a)
  have h4: "\<forall>c \<in> set (checks_of client_a burst). \<forall>c' \<in> set (checks_of client_a burst).
      snd c - snd c' < window"
    by (simp add: checks_of_burst_a window_def)
  note a = rate_limit_ten_per_minute [where cs = burst and key = client_a and L = no_history
      and t = 10]
  from a h1 have w: "length [u \<leftarrow> admitted_times client_a burst (fst (checks no_history burst)).
      10 - window < u \<and> u \<le> 10] \<le> quota" by blast
  from a h2 h3 h4 have d: "decisions_of client_a burst (fst (checks no_history burst)) =
      replicate 10 True @ [False]" by blast
  note b = rate_limit_ten_per_minute [where cs = burst and key = client_b and L = no_history]
  from b have "decisions_of client_b burst (fst (checks no_history burst)) =
      fst (checks no_history (checks_of client_b burst))" by blast
  also have "\<dots> = [True]"
    by (simp add: checks_of_burst_b admit_def no_history_def quota_def)
  finally have e: "decisions_of client_b burst (fst (checks no_history burst)) = [True]" .
  note c = rate_limit_ten_per_minute [where cs = "checks_of client_a burst" and key = client_a
      and L = exhausted and now = 30 and E = sample_env and rows = "[london_row]" and st = fresh
      and q = None and tz' = "Some ''Europe/London''" and min_pop = None and limit = 50
      and offset = 0 and sort' = None and order' = "''asc''" and key' = client_b]
  from c exhausted_rejects
  have "cities_endpoint sample_env [london_row] exhausted fresh client_a 30 None
       (Some ''Europe/London'') None 50 0 None ''asc'' =
       (Response ''Too Many Requests'' 429, snd (admit exhausted client_a 30), fresh)" by blast
  then have f: "fst (cities_endpoint sample_env [london_row] exhausted fresh client_a 30 None
       (Some ''Europe/London'') None 50 0 None ''asc'') = Response ''Too Many Requests'' 429"
    by simp
  have h5: "exhausted client_b = []"
    using clients_differ by (simp add: exhausted_def no_history_def)
  have h6: "client_b \<notin> fst ` set (checks_of client_a burst)"
    using clients_differ by (simp add: checks_of_burst_a)
  from c h5 h6
  have g: "fst (admit (snd (checks exhausted (checks_of client_a burst))) client_b 30) = True"
    by blast
  from h1 w h2 h3 d e exhausted_rejects f h5 g show ?thesis by (intro conjI)
qed

end
